theory Spec2Isabelle
  imports Main "HOL-Library.Sublist"
begin

section \<open>Python strings, slices and dictionaries\<close>

text \<open>
  Strings are \<open>string\<close> (lists of 8-bit characters); \<open>lower\<close> is Python's
  \<^verbatim>\<open>str.lower()\<close> on ASCII text: the letters A to Z move to a to z, every
  other character stays.
\<close>

definition ascii_uppercase :: string where
  "ascii_uppercase = ''ABCDEFGHIJKLMNOPQRSTUVWXYZ''"

definition ascii_lowercase :: string where
  "ascii_lowercase = ''abcdefghijklmnopqrstuvwxyz''"

definition lower_char :: "char \<Rightarrow> char" where
  "lower_char c =
     (case map_of (zip ascii_uppercase ascii_lowercase) c of None \<Rightarrow> c | Some l \<Rightarrow> l)"

definition lower :: "string \<Rightarrow> string" where
  "lower s = map lower_char s"

text \<open>Python's \<^verbatim>\<open>needle in haystack\<close> on strings: a contiguous occurrence.\<close>

fun str_in :: "string \<Rightarrow> string \<Rightarrow> bool" where
  "str_in p [] = (p = [])"
| "str_in p (c # cs) = (prefix p (c # cs) \<or> str_in p cs)"

text \<open>\<^verbatim>\<open>any(indicator in text for indicator in indicators)\<close>\<close>

definition any_in :: "string list \<Rightarrow> string \<Rightarrow> bool" where
  "any_in indicators txt = list_ex (\<lambda>indicator. str_in indicator txt) indicators"

text \<open>\<^verbatim>\<open>xs[:n]\<close> for a Python int \<open>n\<close>: a negative bound counts from the end.\<close>

definition slice_to :: "int \<Rightarrow> 'a list \<Rightarrow> 'a list" where
  "slice_to n xs = (if 0 \<le> n then take (nat n) xs else take (length xs - nat (- n)) xs)"

text \<open>\<^verbatim>\<open>sep.join(parts)\<close>\<close>

fun join :: "string \<Rightarrow> string list \<Rightarrow> string" where
  "join sep [] = []"
| "join sep [p] = p"
| "join sep (p # q # ps) = p @ sep @ join sep (q # ps)"

text \<open>\<^verbatim>\<open>str(n)\<close> for a Python int.\<close>

fun str_nat :: "nat \<Rightarrow> string" where
  "str_nat n =
     (if n < 10 then [char_of (48 + n)]
      else str_nat (n div 10) @ [char_of (48 + n mod 10)])"

declare str_nat.simps [simp del]

definition str_int :: "int \<Rightarrow> string" where
  "str_int i = (if i < 0 then CHR ''-'' # str_nat (nat (- i)) else str_nat (nat i))"

text \<open>
  A Python \<^verbatim>\<open>dict\<close> keeps its keys in insertion order; \<^verbatim>\<open>d[k] = v\<close>
  replaces the value of a key that is present where it stands and appends a new key at
  the end. The dictionary is an association list in that order.
\<close>

fun dict_set :: "'k \<Rightarrow> 'v \<Rightarrow> ('k \<times> 'v) list \<Rightarrow> ('k \<times> 'v) list" where
  "dict_set k v [] = [(k, v)]"
| "dict_set k v (kv # d) = (if fst kv = k then (k, v) # d else kv # dict_set k v d)"

definition dict_keys :: "('k \<times> 'v) list \<Rightarrow> 'k list" where
  "dict_keys d = map fst d"

definition dict_values :: "('k \<times> 'v) list \<Rightarrow> 'v list" where
  "dict_values d = map snd d"

definition dict_get :: "('k \<times> 'v) list \<Rightarrow> 'k \<Rightarrow> 'v option" where
  "dict_get d k = map_of d k"

section \<open>Messages and the agent state\<close>

type_synonym tool_args = "(string \<times> string) list"

datatype tool_call = ToolCall (call_name: string) (call_args: tool_args) (call_id: string)

datatype message =
    HumanMessage string
  | AIMessage string "tool_call list"
  | ToolMessage string string

fun content :: "message \<Rightarrow> string" where
  "content (HumanMessage c) = c"
| "content (AIMessage c calls) = c"
| "content (ToolMessage c tool_call_id) = c"

fun tool_calls :: "message \<Rightarrow> tool_call list" where
  "tool_calls (AIMessage c calls) = calls"
| "tool_calls (HumanMessage c) = []"
| "tool_calls (ToolMessage c tool_call_id) = []"

record agent_state =
  messages :: "message list"
  current_query :: string
  selected_tools :: "string list"
  tool_results :: "(string \<times> string) list"
  final_response :: string
  iteration_count :: int
  max_iterations :: int
  is_complex_query :: bool

text \<open>
  What the agent holds and calls but does not define: the keys of the tool registry, the
  store's ranked search, the language model, the tools and the console. The model and the
  tools act on the world outside, of type \<open>'w\<close>, and either return or raise
  (\<open>Inl\<close> carries \<^verbatim>\<open>str(e)\<close>). The model is called with the names of the
  tools bound to it. \<^verbatim>\<open>console.print\<close> reads its text as markup and raises
  \<open>MarkupError\<close> on a text it cannot read, such as one with a closing tag that closes
  nothing: \<open>None\<close> when it prints, \<open>Some m\<close> when it raises with
  \<^verbatim>\<open>str(e)\<close> \<open>= m\<close>.
\<close>

record 'w agent =
  tool_registry :: "string list"
  store_search :: "string \<Rightarrow> int \<Rightarrow> string list"
  llm_ainvoke :: "'w \<Rightarrow> string list \<Rightarrow> message list \<Rightarrow> (string + message) \<times> 'w"
  tool_ainvoke :: "'w \<Rightarrow> string \<Rightarrow> tool_args \<Rightarrow> (string + string) \<times> 'w"
  console_print :: "string \<Rightarrow> string option"

datatype error = KeyError string | ModelFault string | MarkupError string

section \<open>The tool selector\<close>

definition special_tools :: "(string \<times> string list) list" where
  "special_tools =
     [(''repository'', [''create_repository'', ''delete_repository'', ''get_repository_info'']),
      (''repo'', [''create_repository'', ''delete_repository'', ''get_repository_info'']),
      (''branch'', [''list_branches'', ''create_branch'', ''delete_branch'', ''checkout_branch'']),
      (''file'', [''create_file'', ''update_file'', ''delete_file'', ''create_local_file'']),
      (''pull request'', [''list_pull_requests'', ''create_pull_request'',
                          ''merge_pull_request'', ''close_pull_request'']),
      (''pr'', [''list_pull_requests'', ''create_pull_request'',
                ''merge_pull_request'', ''close_pull_request'']),
      (''issue'', [''list_issues'', ''create_issue'', ''close_issue'', ''comment_on_issue'']),
      (''clone'', [''clone_repository'', ''get_repo_status'', ''pull_changes'']),
      (''commit'', [''commit_changes'', ''push_changes'', ''get_repo_status'']),
      (''workflow'', [''list_workflows'', ''trigger_workflow'']),
      (''collaborator'', [''list_collaborators'', ''add_collaborator'']),
      (''user'', [''get_github_user_info'', ''list_user_repositories'']),
      (''organization'', [''list_organization_repositories'']),
      (''vscode'', [''open_file_in_vscode''])]"

text \<open>
  The body of the inner loop:
  \<^verbatim>\<open>if tool not in tool_names and tool in self.tool_registry: tool_names.append(tool)\<close>
\<close>

definition add_tool :: "string list \<Rightarrow> string \<Rightarrow> string list \<Rightarrow> string list" where
  "add_tool registry tool tool_names =
     (if tool \<notin> set tool_names \<and> tool \<in> set registry then tool_names @ [tool]
      else tool_names)"

text \<open>The body of the outer loop, for one entry of the table.\<close>

definition add_keyword_tools ::
  "string list \<Rightarrow> string \<Rightarrow> string \<times> string list \<Rightarrow> string list \<Rightarrow> string list" where
  "add_keyword_tools registry query_lower entry tool_names =
     (if str_in (fst entry) query_lower then fold (add_tool registry) (snd entry) tool_names
      else tool_names)"

definition retrieve_relevant_tools :: "'w agent \<Rightarrow> string \<Rightarrow> int \<Rightarrow> string list" where
  "retrieve_relevant_tools self query limit =
     (let tool_names = store_search self query limit;
          query_lower = lower query;
          tool_names = fold (add_keyword_tools (tool_registry self) query_lower)
                         special_tools tool_names
      in slice_to limit tool_names)"

section \<open>Query analysis\<close>

definition complex_indicators :: "string list" where
  "complex_indicators = ['' and '', '' then '', '' after '', '' next '']"

text \<open>
  The state that query analysis returns. The node also prints the query and the
  shortlist (lines 134 and 147); it is followed here where these two prints return.
\<close>

definition query_analysis_node :: "'w agent \<Rightarrow> agent_state \<Rightarrow> agent_state" where
  "query_analysis_node self state =
     (let is_complex = any_in complex_indicators (lower (current_query state));
          selected = retrieve_relevant_tools self (current_query state) 5
      in state\<lparr>selected_tools := selected,
               iteration_count := 0,
               max_iterations := (if is_complex then 5 else 10),
               is_complex_query := is_complex\<rparr>)"

section \<open>The continuation predicate\<close>

datatype node = START | Query_analysis | Tool_execution | Response_generation | END

definition continue_indicators :: "string list" where
  "continue_indicators =
     [''next'', ''then'', ''now i will'', ''i need to'', ''let me'',
      ''should'', ''will now'', ''going to'', ''need to check'']"

definition incomplete_indicators :: "string list" where
  "incomplete_indicators =
     [''does not exist'', ''not found'', ''failed'', ''error'',
      ''next step'', ''need to'', ''should create'', ''empty'', ''no repository selected'']"

text \<open>
  The two names \<open>should_continue\<close> returns are the names of the nodes the conditional
  edge maps them to. \<^verbatim>\<open>list(d.values())[-1]\<close> is the value of the key that
  stands last in the dictionary.
\<close>

definition should_continue :: "agent_state \<Rightarrow> node" where
  "should_continue state =
     (if max_iterations state \<le> iteration_count state then Response_generation
      else if tool_results state = [] then Tool_execution
      else if messages state \<noteq> []
              \<and> content (last (messages state)) \<noteq> []
              \<and> any_in continue_indicators (lower (content (last (messages state))))
        then Tool_execution
      else if tool_results state \<noteq> []
              \<and> any_in incomplete_indicators
                    (lower (last (dict_values (tool_results state))))
        then Tool_execution
      else Response_generation)"

section \<open>Tool execution\<close>

definition nl :: string where
  "nl = [CHR 0x0A]"

definition dquote :: string where
  "dquote = [CHR 0x22]"

definition squote :: string where
  "squote = [CHR 0x27]"

definition previous_executions :: "(string \<times> string) list \<Rightarrow> string" where
  "previous_executions results =
     (if results = [] then []
      else nl @ ''Previous executions:'' @ nl
           @ concat (map (\<lambda>(tool_name, result).
                 ''- '' @ tool_name @ '': '' @ take 200 result @ ''...'' @ nl) results)
           @ nl @ ''Based on these results, determine next steps.'' @ nl)"

definition planning_prompt :: "agent_state \<Rightarrow> string" where
  "planning_prompt state =
     join nl
       [[],
        ''        You are a GitHub automation assistant. User asked: ''
          @ dquote @ current_query state @ dquote,
        ''        '',
        ''        Available tools: '' @ join '', '' (selected_tools state),
        ''        Current iteration: '' @ str_int (iteration_count state + 1)
          @ ''/'' @ str_int (max_iterations state),
        ''        '',
        ''        '' @ previous_executions (tool_results state),
        ''        '',
        ''        Guidelines:'',
        ''        - If user mentions setting or switching repository, use ''
          @ squote @ ''set_repository'' @ squote @ '' tool first'',
        ''        - Execute ONE tool at a time'',
        ''        - If something doesn'' @ squote @ ''t exist but is needed, create it'',
        ''        - Get information before acting when needed'',
        ''        - Think step-by-step about the user'' @ squote @ ''s goal'',
        ''        - Always set repository before performing operations if not already set'',
        ''        '',
        ''        What tool should you execute next?'',
        ''        '']"

text \<open>
  The lines the loop over the proposed calls prints. Each holds text that comes from the
  model or from a tool: the name and the arguments of the call, the result, the fault. The
  arguments print as Python prints a dict of strings (keys and values without quotes,
  backslashes or control characters); the symbols at the head of the lines are their UTF-8
  bytes. The prints of a constant text (lines 159 and 235) always return and are left out.
\<close>

definition repr_args :: "tool_args \<Rightarrow> string" where
  "repr_args args =
     ''{'' @ join '', '' (map (\<lambda>(k, v). squote @ k @ squote @ '': '' @ squote @ v @ squote) args)
       @ ''}''"

definition calling_line :: "string \<Rightarrow> tool_args \<Rightarrow> string" where
  "calling_line tool_name tool_args =
     ''[yellow]'' @ [CHR 0xF0, CHR 0x9F, CHR 0x94, CHR 0xA7] @ '' Calling '' @ tool_name
       @ '' with args: '' @ repr_args tool_args @ ''[/yellow]''"

definition result_line :: "string \<Rightarrow> string \<Rightarrow> string" where
  "result_line tool_name result =
     ''[green]'' @ [CHR 0xE2, CHR 0x9C, CHR 0x85] @ '' Tool '' @ tool_name @ '' result: ''
       @ take 200 result @ ''...[/green]''"

definition failure_line :: "string \<Rightarrow> string" where
  "failure_line error_msg =
     ''[red]'' @ [CHR 0xE2, CHR 0x9D, CHR 0x8C] @ '' '' @ error_msg @ ''[/red]''"

definition not_found_msg :: "string \<Rightarrow> string" where
  "not_found_msg tool_name = ''Tool '' @ tool_name @ '' not found''"

definition error_executing_msg :: "string \<Rightarrow> string \<Rightarrow> string" where
  "error_executing_msg tool_name e = ''Error executing '' @ tool_name @ '': '' @ e"

text \<open>
  The handler \<^verbatim>\<open>except Exception as e\<close>: it stores the error text and prints it.
  An exception of that print leaves the handler and the node.
\<close>

definition except_handler ::
  "'w agent \<Rightarrow> string \<Rightarrow> string
     \<Rightarrow> 'w \<times> message list \<times> (string \<times> string) list
     \<Rightarrow> error + 'w \<times> message list \<times> (string \<times> string) list" where
  "except_handler self tool_name e acc =
     (case acc of (w, msgs, results) \<Rightarrow>
        (let error_msg = error_executing_msg tool_name e;
             results = dict_set tool_name error_msg results
         in case console_print self (failure_line error_msg) of
              Some m \<Rightarrow> Inl (MarkupError m)
            | None \<Rightarrow> Inr (w, msgs, results)))"

text \<open>
  One pass of the loop over \<^verbatim>\<open>response.tool_calls\<close>, on the world, the copy of
  the messages and the copy of the results. The first print stands before
  \<^verbatim>\<open>try\<close>: its exception leaves the node. Inside \<^verbatim>\<open>try\<close> a registered
  tool is invoked; its result is stored, answers the call as a \<open>ToolMessage\<close> and is
  printed. A name outside the registry stores its text, appends no message and prints the
  text. Whatever is raised inside \<^verbatim>\<open>try\<close>, by the tool or by a print, reaches the
  handler with what was stored and appended before.
\<close>

definition execute_tool_call ::
  "'w agent \<Rightarrow> tool_call
     \<Rightarrow> 'w \<times> message list \<times> (string \<times> string) list
     \<Rightarrow> error + 'w \<times> message list \<times> (string \<times> string) list" where
  "execute_tool_call self tool_call acc =
     (case acc of (w, msgs, results) \<Rightarrow>
        (let tool_name = call_name tool_call; tool_args = call_args tool_call in
         case console_print self (calling_line tool_name tool_args) of
           Some m \<Rightarrow> Inl (MarkupError m)
         | None \<Rightarrow>
             if tool_name \<in> set (tool_registry self) then
               (case tool_ainvoke self w tool_name tool_args of
                  (Inl e, w') \<Rightarrow> except_handler self tool_name e (w', msgs, results)
                | (Inr result, w') \<Rightarrow>
                    (let results = dict_set tool_name result results;
                         msgs = msgs @ [ToolMessage result (call_id tool_call)]
                     in case console_print self (result_line tool_name result) of
                          Some m \<Rightarrow> except_handler self tool_name m (w', msgs, results)
                        | None \<Rightarrow> Inr (w', msgs, results)))
             else
               (let error_msg = not_found_msg tool_name;
                    results = dict_set tool_name error_msg results
                in case console_print self (failure_line error_msg) of
                     Some m \<Rightarrow> except_handler self tool_name m (w, msgs, results)
                   | None \<Rightarrow> Inr (w, msgs, results))))"

text \<open>The loop: the calls in the order proposed; an exception ends it.\<close>

fun execute_tool_calls ::
  "'w agent \<Rightarrow> tool_call list
     \<Rightarrow> 'w \<times> message list \<times> (string \<times> string) list
     \<Rightarrow> error + 'w \<times> message list \<times> (string \<times> string) list" where
  "execute_tool_calls self [] acc = Inr acc"
| "execute_tool_calls self (tool_call # rest) acc =
     (case execute_tool_call self tool_call acc of
        Inl err \<Rightarrow> Inl err
      | Inr acc' \<Rightarrow> execute_tool_calls self rest acc')"

text \<open>
  Binding the selected tools looks each one up in the registry (a \<open>KeyError\<close> for a
  name that is not there); a fault of the model call and an exception of the loop leave
  the node as an exception.
\<close>

definition tool_execution_node ::
  "'w agent \<Rightarrow> 'w \<Rightarrow> agent_state \<Rightarrow> error + 'w \<times> agent_state" where
  "tool_execution_node self w state =
     (let msgs = messages state @ [HumanMessage (planning_prompt state)] in
      case find (\<lambda>tool_name. tool_name \<notin> set (tool_registry self)) (selected_tools state) of
        Some tool_name \<Rightarrow> Inl (KeyError tool_name)
      | None \<Rightarrow>
          (case llm_ainvoke self w (selected_tools state) msgs of
             (Inl e, w') \<Rightarrow> Inl (ModelFault e)
           | (Inr response, w') \<Rightarrow>
               (case execute_tool_calls self (tool_calls response)
                       (w', msgs @ [response], tool_results state) of
                  Inl err \<Rightarrow> Inl err
                | Inr (w'', msgs', results') \<Rightarrow>
                    Inr (w'', state\<lparr>messages := msgs',
                                    tool_results := results',
                                    iteration_count := iteration_count state + 1\<rparr>))))"

section \<open>Response generation\<close>

definition summary_text :: "(string \<times> string) list \<Rightarrow> string" where
  "summary_text results =
     (if results = [] then ''No tools executed.''
      else join nl (map (\<lambda>(name, result). ''**'' @ name @ ''**: '' @ result) results))"

definition final_prompt :: "agent_state \<Rightarrow> string" where
  "final_prompt state =
     join nl
       [[],
        ''        User asked: '' @ dquote @ current_query state @ dquote,
        ''        '',
        ''        Executed actions:'',
        ''        '' @ summary_text (tool_results state),
        ''        '',
        ''        Provide a response that:'',
        ''        1. Summarizes what was done'',
        ''        2. Answers the original question'',
        ''        3. Includes relevant details'',
        ''        4. Uses markdown formatting'',
        ''        5. Explains if more work is needed'',
        ''        '']"

text \<open>The print of the node (line 246) is a constant text.\<close>

definition response_generation_node ::
  "'w agent \<Rightarrow> 'w \<Rightarrow> agent_state \<Rightarrow> error + 'w \<times> agent_state" where
  "response_generation_node self w state =
     (let msgs = messages state @ [HumanMessage (final_prompt state)] in
      case llm_ainvoke self w [] msgs of
        (Inl e, w') \<Rightarrow> Inl (ModelFault e)
      | (Inr final, w') \<Rightarrow>
          Inr (w', state\<lparr>final_response := content final,
                         messages := msgs @ [final]\<rparr>))"

section \<open>The workflow graph\<close>

text \<open>
  \<open>build_graph\<close>: three nodes; the edges START to query analysis, query analysis to
  tool execution, the conditional edge out of tool execution that \<open>should_continue\<close>
  decides, and response generation to END.
\<close>

definition run_node ::
  "'w agent \<Rightarrow> node \<Rightarrow> 'w \<Rightarrow> agent_state \<Rightarrow> error + 'w \<times> agent_state" where
  "run_node self n w state =
     (case n of
        START \<Rightarrow> Inr (w, state)
      | Query_analysis \<Rightarrow> Inr (w, query_analysis_node self state)
      | Tool_execution \<Rightarrow> tool_execution_node self w state
      | Response_generation \<Rightarrow> response_generation_node self w state
      | END \<Rightarrow> Inr (w, state))"

definition next_node :: "node \<Rightarrow> agent_state \<Rightarrow> node" where
  "next_node n state =
     (case n of
        START \<Rightarrow> Query_analysis
      | Query_analysis \<Rightarrow> Tool_execution
      | Tool_execution \<Rightarrow> should_continue state
      | Response_generation \<Rightarrow> END
      | END \<Rightarrow> END)"

text \<open>
  A run of the compiled graph from node \<open>n\<close>: the nodes entered, each with the state it
  was entered with, and the outcome (the final state, or the exception that ended the
  run).
\<close>

type_synonym 'w run = "(node \<times> agent_state) list \<times> (error + 'w \<times> agent_state)"

definition entered :: "node \<Rightarrow> agent_state \<Rightarrow> 'w run \<Rightarrow> 'w run" where
  "entered n state r = ((n, state) # fst r, snd r)"

definition remaining :: "node \<Rightarrow> agent_state \<Rightarrow> nat" where
  "remaining n state =
     (case n of
        START \<Rightarrow> 14
      | Query_analysis \<Rightarrow> 13
      | Tool_execution \<Rightarrow> 2 + nat (max_iterations state - iteration_count state)
      | Response_generation \<Rightarrow> 1
      | END \<Rightarrow> 0)"

function graph_run :: "'w agent \<Rightarrow> node \<Rightarrow> 'w \<Rightarrow> agent_state \<Rightarrow> 'w run" where
  "graph_run self n w state =
     (if n = END then ([], Inr (w, state))
      else case run_node self n w state of
             Inl e \<Rightarrow> ([(n, state)], Inl e)
           | Inr (w', state') \<Rightarrow>
               entered n state (graph_run self (next_node n state') w' state'))"
  by pat_completeness auto
termination
proof (relation "measure (\<lambda>(self, n, w, state). remaining n state)")
  show "wf (measure (\<lambda>(self :: 'w agent, n, w :: 'w, state). remaining n state))"
    by simp
next
  fix self :: "'w agent" and n w state x2 w' state'
  assume n: "n \<noteq> END" and run: "run_node self n w state = Inr x2" and x2: "(w', state') = x2"
  have "remaining (next_node n state') state' < remaining n state"
  proof (cases n)
    case START
    then show ?thesis by (simp add: remaining_def next_node_def)
  next
    case Query_analysis
    with run x2 have "state' = query_analysis_node self state"
      by (auto simp: run_node_def)
    then have "iteration_count state' = 0" "max_iterations state' \<le> 10"
      by (simp_all add: query_analysis_node_def Let_def)
    with Query_analysis show ?thesis by (simp add: remaining_def next_node_def)
  next
    case Tool_execution
    with run x2 have te: "tool_execution_node self w state = Inr (w', state')"
      by (auto simp: run_node_def)
    then have c: "iteration_count state' = iteration_count state + 1"
      "max_iterations state' = max_iterations state"
      by (auto simp: tool_execution_node_def Let_def
          split: option.splits sum.splits prod.splits)
    have "should_continue state' = Tool_execution
            \<or> should_continue state' = Response_generation"
      by (simp add: should_continue_def)
    then show ?thesis
    proof
      assume sc: "should_continue state' = Tool_execution"
      then have "iteration_count state' < max_iterations state'"
        by (auto simp: should_continue_def split: if_splits)
      with c Tool_execution sc show ?thesis
        by (simp add: remaining_def next_node_def)
    next
      assume "should_continue state' = Response_generation"
      with Tool_execution show ?thesis by (simp add: remaining_def next_node_def)
    qed
  next
    case Response_generation
    then show ?thesis by (simp add: remaining_def next_node_def)
  next
    case END
    with n show ?thesis by simp
  qed
  then show "((self, next_node n state', w', state'), (self, n, w, state))
               \<in> measure (\<lambda>(self, n, w, state). remaining n state)"
    by simp
qed

declare graph_run.simps [simp del]

text \<open>
  The session driver: each query starts from a fresh state and runs the graph from START.
\<close>

definition initial_state :: "string \<Rightarrow> agent_state" where
  "initial_state user_query =
     \<lparr>messages = [HumanMessage user_query],
      current_query = user_query,
      selected_tools = [],
      tool_results = [],
      final_response = [],
      iteration_count = 0,
      max_iterations = 5,
      is_complex_query = False\<rparr>"

definition ainvoke :: "'w agent \<Rightarrow> 'w \<Rightarrow> agent_state \<Rightarrow> 'w run" where
  "ainvoke self w state = graph_run self START w state"

section \<open>The registry of the repository and scripted collaborators\<close>

text \<open>The names \<open>get_tool_registry\<close> registers: the functions of \<open>all_tools\<close>, in order.\<close>

definition all_tools :: "string list" where
  "all_tools =
     [''github_greeter'', ''list_branches'', ''create_branch'', ''delete_branch'',
      ''create_file'', ''update_file'', ''delete_file'', ''list_pull_requests'',
      ''create_pull_request'', ''merge_pull_request'', ''close_pull_request'',
      ''list_issues'', ''create_issue'', ''close_issue'', ''comment_on_issue'',
      ''list_collaborators'', ''add_collaborator'', ''list_workflows'',
      ''clone_repository'', ''checkout_branch'', ''commit_changes'', ''push_changes'',
      ''get_repo_status'', ''create_local_file'', ''pull_changes'', ''open_file_vscode'',
      ''create_repository'', ''delete_repository'', ''list_user_repositories'',
      ''list_organization_repositories'', ''get_github_user_info'',
      ''get_repository_info'']"

text \<open>
  Concrete collaborators for running the agent on examples. The world is the number of
  model calls made so far. The scripted model proposes one call of \<open>delete_branch\<close>
  first and answers in plain text afterwards; the scripted tools return a line of text,
  but \<open>create_pull_request\<close> raises.
\<close>

definition scripted_llm ::
  "nat \<Rightarrow> string list \<Rightarrow> message list \<Rightarrow> (string + message) \<times> nat" where
  "scripted_llm w bound msgs =
     (if w = 0
      then (Inr (AIMessage [] [ToolCall ''delete_branch'' [(''branch_name'', ''old'')] ''call_1'']),
            Suc w)
      else (Inr (AIMessage ''Done.'' []), Suc w))"

definition scripted_tool :: "nat \<Rightarrow> string \<Rightarrow> tool_args \<Rightarrow> (string + string) \<times> nat" where
  "scripted_tool w tool_name args =
     (if tool_name = ''create_pull_request'' then (Inl ''connection reset'', w)
      else (Inr (''ran '' @ tool_name), w))"

text \<open>
  The console of the examples. None of the lines the agent prints opens a tag named
  \<open>old\<close>, so a text that holds the closing tag \<open>[/old]\<close> cannot be read; this
  console raises on such a text and prints every other. Its message is the library's
  without the position of the tag.
\<close>

definition plain_console :: "string \<Rightarrow> string option" where
  "plain_console txt =
     (if str_in ''[/old]'' txt
      then Some (''closing tag '' @ squote @ ''[/old]'' @ squote
                 @ '' doesn'' @ squote @ ''t match any open tag'')
      else None)"

definition scripted_agent :: "nat agent" where
  "scripted_agent =
     \<lparr>tool_registry = all_tools,
      store_search = (\<lambda>query limit. [''create_branch'']),
      llm_ainvoke = scripted_llm,
      tool_ainvoke = scripted_tool,
      console_print = plain_console\<rparr>"

text \<open>
  A model that proposes three calls at once: a name outside the registry, the tool that
  raises, and a tool that returns.
\<close>

definition wandering_llm ::
  "nat \<Rightarrow> string list \<Rightarrow> message list \<Rightarrow> (string + message) \<times> nat" where
  "wandering_llm w bound msgs =
     (if w = 0
      then (Inr (AIMessage []
                   [ToolCall ''ghost'' [] ''call_1'',
                    ToolCall ''create_pull_request'' [(''title'', ''dev'')] ''call_2'',
                    ToolCall ''list_branches'' [] ''call_3'']),
            Suc w)
      else (Inr (AIMessage ''Done.'' []), Suc w))"

definition wandering_agent :: "nat agent" where
  "wandering_agent = scripted_agent\<lparr>llm_ainvoke := wandering_llm\<rparr>"

definition wandering_response :: message where
  "wandering_response =
     AIMessage []
       [ToolCall ''ghost'' [] ''call_1'',
        ToolCall ''create_pull_request'' [(''title'', ''dev'')] ''call_2'',
        ToolCall ''list_branches'' [] ''call_3'']"

definition pull_request_state :: agent_state where
  "pull_request_state =
     query_analysis_node wandering_agent (initial_state ''open a pull request for dev'')"


text \<open>
  The same three calls against tools whose fault text holds a closing tag:
  \<open>create_pull_request\<close> raises with a text that quotes \<open>[/old]\<close>.
\<close>

definition markup_tool :: "nat \<Rightarrow> string \<Rightarrow> tool_args \<Rightarrow> (string + string) \<times> nat" where
  "markup_tool w tool_name args =
     (if tool_name = ''create_pull_request'' then (Inl ''unexpected [/old] in reply'', w)
      else (Inr (''ran '' @ tool_name), w))"

definition markup_agent :: "nat agent" where
  "markup_agent = wandering_agent\<lparr>tool_ainvoke := markup_tool\<rparr>"

text \<open>
  An agent whose tools count their runs in the world, so that two runs of one tool give
  two results.
\<close>

definition counting_tool :: "nat \<Rightarrow> string \<Rightarrow> tool_args \<Rightarrow> (string + string) \<times> nat" where
  "counting_tool w tool_name args = (Inr (''run '' @ str_nat w @ '' of '' @ tool_name), Suc w)"

definition counting_agent :: "nat agent" where
  "counting_agent = scripted_agent\<lparr>tool_ainvoke := counting_tool\<rparr>"

text \<open>The same agent with a store whose search finds nothing.\<close>

definition unranked_agent :: "nat agent" where
  "unranked_agent = scripted_agent\<lparr>store_search := (\<lambda>query limit. [])\<rparr>"

text \<open>An agent whose registry holds the two creation tools only.\<close>

definition small_agent :: "nat agent" where
  "small_agent =
     unranked_agent\<lparr>tool_registry := [''create_branch'', ''create_pull_request'']\<rparr>"

section \<open>What the statements speak of, and the specification's wording for comparison\<close>

text \<open>
  The tools of the table's keywords that occur in the lowercased query, in the order of
  the table.
\<close>

definition keyword_tools :: "string \<Rightarrow> string list" where
  "keyword_tools query_lower =
     concat (map snd (filter (\<lambda>entry. str_in (fst entry) query_lower) special_tools))"

text \<open>
  The tools of a list, in their order, without those already present and without
  repeats: what appending each one \<open>if it is not already present\<close> adds.
\<close>

fun not_yet_present :: "string list \<Rightarrow> string list \<Rightarrow> string list" where
  "not_yet_present present [] = []"
| "not_yet_present present (tool # tools) =
     (if tool \<in> set present then not_yet_present present tools
      else tool # not_yet_present (tool # present) tools)"

text \<open>
  The continuation predicate as the specification words it: rule 3 looks for the phrases
  in the text of the most recent message as it stands, rule 4 in the latest result
  whatever its case.
\<close>

definition continuation_as_worded :: "agent_state \<Rightarrow> node" where
  "continuation_as_worded state =
     (if max_iterations state \<le> iteration_count state then Response_generation
      else if tool_results state = [] then Tool_execution
      else if messages state \<noteq> []
              \<and> any_in continue_indicators (content (last (messages state)))
        then Tool_execution
      else if any_in incomplete_indicators
                (lower (last (dict_values (tool_results state))))
        then Tool_execution
      else Response_generation)"

text \<open>
  The invariant of the results as the specification words it: every key is a selected
  tool or a name the registry does not know.
\<close>

definition keys_selected_or_unknown :: "'w agent \<Rightarrow> agent_state \<Rightarrow> bool" where
  "keys_selected_or_unknown self state =
     list_all (\<lambda>k. k \<in> set (selected_tools state) \<or> k \<notin> set (tool_registry self))
       (dict_keys (tool_results state))"

text \<open>
  The outcome of a proposed call that completes, as the pass stores it under the name of
  the call: the result of the tool, or the text of the failure.
\<close>

definition call_outcome :: "'w agent \<Rightarrow> 'w \<Rightarrow> tool_call \<Rightarrow> string" where
  "call_outcome self w tool_call =
     (let tool_name = call_name tool_call in
      if tool_name \<in> set (tool_registry self) then
        (case fst (tool_ainvoke self w tool_name (call_args tool_call)) of
           Inl e \<Rightarrow> error_executing_msg tool_name e
         | Inr result \<Rightarrow>
             (case console_print self (result_line tool_name result) of
                None \<Rightarrow> result
              | Some m \<Rightarrow> error_executing_msg tool_name m))
      else
        (case console_print self (failure_line (not_found_msg tool_name)) of
           None \<Rightarrow> not_found_msg tool_name
         | Some m \<Rightarrow> error_executing_msg tool_name m))"

text \<open>The names of the calls the model has proposed in the messages of a state.\<close>

definition proposed_names :: "message list \<Rightarrow> string list" where
  "proposed_names msgs = concat (map (\<lambda>m. map call_name (tool_calls m)) msgs)"

text \<open>
  The invariant the code keeps: no key stands twice; every key is the name of a call the
  model proposed; a key outside the registry whose text \<open>Tool NAME not found\<close> the
  console prints holds that text.
\<close>

definition results_wellformed :: "'w agent \<Rightarrow> agent_state \<Rightarrow> bool" where
  "results_wellformed self state =
     (distinct (dict_keys (tool_results state))
      \<and> list_all (\<lambda>k. k \<in> set (proposed_names (messages state)))
          (dict_keys (tool_results state))
      \<and> list_all (\<lambda>(k, v). k \<in> set (tool_registry self)
                     \<or> console_print self (failure_line (not_found_msg k)) \<noteq> None
                     \<or> v = not_found_msg k)
          (tool_results state))"

text \<open>A state after one pass whose tool answered with a capitalised \<open>Next\<close>.\<close>

definition capitalised_state :: agent_state where
  "capitalised_state =
     \<lparr>messages = [HumanMessage ''create a branch'',
                  HumanMessage ''What tool should you execute next?'',
                  AIMessage [] [ToolCall ''create_branch'' [(''new_branch'', ''dev'')] ''call_1''],
                  ToolMessage ''Created branch dev. Next: open the PR'' ''call_1''],
      current_query = ''create a branch'',
      selected_tools = [''create_branch''],
      tool_results = [(''create_branch'', ''Created branch dev. Next: open the PR'')],
      final_response = [],
      iteration_count = 1,
      max_iterations = 10,
      is_complex_query = False\<rparr>"

text \<open>
  A state with budget left after a pass whose only call, of \<open>get_repository_info\<close>,
  reported the repository as not found: the result is the last message and the only
  entry of the results.
\<close>

definition not_found_state :: agent_state where
  "not_found_state =
     \<lparr>messages = [HumanMessage ''show the repo'',
                  HumanMessage ''What tool should you execute next?'',
                  AIMessage []
                    [ToolCall ''get_repository_info'' [(''repo_name'', ''demo'')] ''call_1''],
                  ToolMessage ''Repository demo not found'' ''call_1''],
      current_query = ''show the repo'',
      selected_tools = [''get_repository_info''],
      tool_results = [(''get_repository_info'', ''Repository demo not found'')],
      final_response = [],
      iteration_count = 1,
      max_iterations = 10,
      is_complex_query = False\<rparr>"

fun is_tool_message :: "message \<Rightarrow> bool" where
  "is_tool_message (ToolMessage c tool_call_id) = True"
| "is_tool_message (HumanMessage c) = False"
| "is_tool_message (AIMessage c calls) = False"

text \<open>
  What holds of the counter when a node is entered, on a run from START: inside the
  budget before a pass, at least one and at most the budget once the loop is left.
\<close>

definition budget_invariant :: "node \<Rightarrow> agent_state \<Rightarrow> bool" where
  "budget_invariant n state =
     (case n of
        START \<Rightarrow> True
      | Query_analysis \<Rightarrow> True
      | Tool_execution \<Rightarrow>
          0 \<le> iteration_count state \<and> iteration_count state < max_iterations state
      | Response_generation \<Rightarrow>
          1 \<le> iteration_count state \<and> iteration_count state \<le> max_iterations state
      | END \<Rightarrow>
          1 \<le> iteration_count state \<and> iteration_count state \<le> max_iterations state)"

text \<open>The number of passes of tool execution in a run.\<close>

definition passes :: "(node \<times> agent_state) list \<Rightarrow> nat" where
  "passes trace = length (filter (\<lambda>entry. fst entry = Tool_execution) trace)"

text \<open>
  A run of the scripted agent: the store ranks \<open>create_branch\<close>, the model proposes
  \<open>delete_branch\<close>, the tool returns, and the loop is left after one pass.
\<close>

definition tidy_run :: "nat run" where
  "tidy_run = ainvoke scripted_agent 0 (initial_state ''tidy up'')"

text \<open>
  A run in which a tool is run a second time. The model first proposes
  \<open>get_repository_info\<close> and \<open>list_branches\<close>, then \<open>get_repository_info\<close>
  again; that tool reports the repository as not found each time.
\<close>

definition stale_llm ::
  "nat \<Rightarrow> string list \<Rightarrow> message list \<Rightarrow> (string + message) \<times> nat" where
  "stale_llm w bound msgs =
     (if w = 0
      then (Inr (AIMessage []
                   [ToolCall ''get_repository_info'' [(''repo_name'', ''demo'')] ''call_1'',
                    ToolCall ''list_branches'' [(''repo_name'', ''demo'')] ''call_2'']),
            Suc w)
      else (Inr (AIMessage []
                   [ToolCall ''get_repository_info'' [(''repo_name'', ''demo'')] ''call_3'']),
            Suc w))"

definition stale_tool :: "nat \<Rightarrow> string \<Rightarrow> tool_args \<Rightarrow> (string + string) \<times> nat" where
  "stale_tool w tool_name args =
     (if tool_name = ''get_repository_info'' then (Inr ''Repository demo not found'', w)
      else (Inr ''Branches: main. Next: pick one'', w))"

definition stale_agent :: "nat agent" where
  "stale_agent = scripted_agent\<lparr>llm_ainvoke := stale_llm, tool_ainvoke := stale_tool\<rparr>"

definition stale_run :: "nat run" where
  "stale_run = ainvoke stale_agent 0 (initial_state ''show the repo'')"

definition stale_response_entry :: agent_state where
  "stale_response_entry = snd (last (fst stale_run))"

definition tidy_final :: agent_state where
  "tidy_final = snd (projr (snd tidy_run))"

definition tidy_response_entry :: agent_state where
  "tidy_response_entry = snd (last (fst tidy_run))"

text \<open>
  The run of the model that proposes three calls at once, and the state it returns.
\<close>

definition wandering_run :: "nat run" where
  "wandering_run = ainvoke wandering_agent 0 (initial_state ''open a pull request for dev'')"

definition wandering_final :: agent_state where
  "wandering_final = snd (projr (snd wandering_run))"

section \<open>Facts about strings and dictionaries\<close>

lemma str_in_iff: "str_in p t \<longleftrightarrow> (\<exists>ps ss. t = ps @ p @ ss)"
proof (induction t)
  case Nil
  then show ?case by auto
next
  case (Cons c cs)
  show ?case
  proof
    assume "str_in p (c # cs)"
    then consider "prefix p (c # cs)" | "str_in p cs" by auto
    then show "\<exists>ps ss. c # cs = ps @ p @ ss"
    proof cases
      case 1
      then obtain ss where "c # cs = p @ ss" by (auto simp: prefix_def)
      then have "c # cs = [] @ p @ ss" by simp
      then show ?thesis by blast
    next
      case 2
      with Cons.IH obtain ps ss where "cs = ps @ p @ ss" by blast
      then have "c # cs = (c # ps) @ p @ ss" by simp
      then show ?thesis by blast
    qed
  next
    assume "\<exists>ps ss. c # cs = ps @ p @ ss"
    then obtain ps ss where eq: "c # cs = ps @ p @ ss" by blast
    show "str_in p (c # cs)"
    proof (cases ps)
      case Nil
      with eq have "prefix p (c # cs)" by (simp add: prefix_def)
      then show ?thesis by simp
    next
      case (Cons a ps')
      with eq have "cs = ps' @ p @ ss" by simp
      with Cons.IH have "str_in p cs" by blast
      then show ?thesis by simp
    qed
  qed
qed

lemma sublist_lower: "sublist p t \<Longrightarrow> sublist (lower p) (lower t)"
proof -
  assume "sublist p t"
  then obtain ps ss where "t = ps @ p @ ss" by (auto simp: sublist_def)
  then have "lower t = lower ps @ lower p @ lower ss" by (simp add: lower_def)
  then show ?thesis unfolding sublist_def by blast
qed

lemma str_in_sublist: "str_in p t \<longleftrightarrow> sublist p t"
  by (simp add: str_in_iff sublist_def)

lemma any_in_iff: "any_in indicators txt \<longleftrightarrow> (\<exists>p \<in> set indicators. sublist p txt)"
  by (simp add: any_in_def list_ex_iff str_in_sublist)

lemma dict_set_keys:
  "set (dict_keys (dict_set k v d)) = insert k (set (dict_keys d))"
  by (induction d) (auto simp: dict_keys_def)

lemma dict_set_distinct:
  "distinct (dict_keys d) \<Longrightarrow> distinct (dict_keys (dict_set k v d))"
proof (induction d)
  case Nil
  then show ?case by (simp add: dict_keys_def)
next
  case (Cons kv d)
  have "set (map fst (dict_set k v d)) = insert k (set (map fst d))"
    using dict_set_keys [of k v d] by (simp add: dict_keys_def)
  with Cons show ?case by (auto simp: dict_keys_def)
qed

lemma dict_get_set_same: "dict_get (dict_set k v d) k = Some v"
  by (induction d) (auto simp: dict_get_def)

lemma dict_get_set_other: "k' \<noteq> k \<Longrightarrow> dict_get (dict_set k v d) k' = dict_get d k'"
  by (induction d) (auto simp: dict_get_def)

lemma dict_set_entries:
  "(k', v') \<in> set (dict_set k v d) \<Longrightarrow> (k' = k \<and> v' = v) \<or> (k', v') \<in> set d"
  by (induction d) (auto split: if_splits)

section \<open>Facts about the tool selector and query analysis\<close>

lemma fold_add_tool_appends:
  "\<exists>appended. fold (add_tool registry) tools tool_names = tool_names @ appended
     \<and> subseq appended tools
     \<and> set appended = (set tools \<inter> set registry) - set tool_names
     \<and> distinct appended"
proof (induction tools arbitrary: tool_names)
  case Nil
  then show ?case by simp
next
  case (Cons t tools)
  show ?case
  proof (cases "t \<notin> set tool_names \<and> t \<in> set registry")
    case True
    from Cons [of "tool_names @ [t]"] obtain appended where
      a: "fold (add_tool registry) tools (tool_names @ [t]) = (tool_names @ [t]) @ appended"
        "subseq appended tools"
        "set appended = (set tools \<inter> set registry) - set (tool_names @ [t])"
        "distinct appended"
      by blast
    from True a have "fold (add_tool registry) (t # tools) tool_names = tool_names @ (t # appended)"
      by (simp add: add_tool_def)
    moreover from a have "subseq (t # appended) (t # tools)" by simp
    moreover from True a
    have "set (t # appended) = (set (t # tools) \<inter> set registry) - set tool_names"
      by auto
    moreover from a have "distinct (t # appended)" by auto
    ultimately show ?thesis by blast
  next
    case False
    from Cons [of tool_names] obtain appended where
      a: "fold (add_tool registry) tools tool_names = tool_names @ appended"
        "subseq appended tools"
        "set appended = (set tools \<inter> set registry) - set tool_names"
        "distinct appended"
      by blast
    from False a have "fold (add_tool registry) (t # tools) tool_names = tool_names @ appended"
      by (auto simp: add_tool_def)
    moreover from a(2) have "subseq appended (t # tools)" by (rule list_emb_Cons)
    moreover from False a
    have "set appended = (set (t # tools) \<inter> set registry) - set tool_names"
      by auto
    ultimately show ?thesis using a by blast
  qed
qed

lemma fold_add_keyword_tools:
  "fold (add_keyword_tools registry query_lower) entries tool_names =
     fold (add_tool registry)
       (concat (map snd (filter (\<lambda>entry. str_in (fst entry) query_lower) entries))) tool_names"
  by (induction entries arbitrary: tool_names) (simp_all add: add_keyword_tools_def)

lemma retrieve_relevant_tools_flat:
  "retrieve_relevant_tools self query limit =
     slice_to limit (fold (add_tool (tool_registry self)) (keyword_tools (lower query))
       (store_search self query limit))"
  by (simp add: retrieve_relevant_tools_def Let_def fold_add_keyword_tools keyword_tools_def)

lemma query_analysis_node_fields:
  "is_complex_query (query_analysis_node self state)
     = any_in complex_indicators (lower (current_query state))"
  "max_iterations (query_analysis_node self state)
     = (if any_in complex_indicators (lower (current_query state)) then 5 else 10)"
  "iteration_count (query_analysis_node self state) = 0"
  "selected_tools (query_analysis_node self state)
     = retrieve_relevant_tools self (current_query state) 5"
  "tool_results (query_analysis_node self state) = tool_results state"
  "messages (query_analysis_node self state) = messages state"
  "current_query (query_analysis_node self state) = current_query state"
  by (simp_all add: query_analysis_node_def Let_def)

section \<open>Facts about one pass of tool execution\<close>

lemma dict_set_overwrites: "dict_set k v (dict_set k v' d) = dict_set k v d"
  by (induction d) auto

lemma except_handler_returns:
  assumes "except_handler self tool_name e (w, msgs, results) = Inr acc'"
  shows "acc' = (w, msgs, dict_set tool_name (error_executing_msg tool_name e) results)"
  using assms by (auto simp: except_handler_def Let_def split: option.splits)

text \<open>
  What a call that completes leaves: the results with the outcome of the call under its
  name, the messages with at most the answer of the call added.
\<close>

lemma execute_tool_call_returns:
  assumes "execute_tool_call self tc (w, msgs, results) = Inr (w', msgs', results')"
  shows "results' = dict_set (call_name tc) (call_outcome self w tc) results"
    and "prefix msgs msgs'"
    and "console_print self (calling_line (call_name tc) (call_args tc)) = None"
proof -
  from assms show p: "console_print self (calling_line (call_name tc) (call_args tc)) = None"
    by (auto simp: execute_tool_call_def Let_def split: option.splits)
  obtain r w1 where t: "tool_ainvoke self w (call_name tc) (call_args tc) = (r, w1)"
    by (cases "tool_ainvoke self w (call_name tc) (call_args tc)")
  from assms p t
  show "results' = dict_set (call_name tc) (call_outcome self w tc) results"
    by (cases r)
       (auto simp: execute_tool_call_def call_outcome_def Let_def dict_set_overwrites
          dest!: except_handler_returns split: option.splits if_splits)
  from assms p t show "prefix msgs msgs'"
    by (cases r)
       (auto simp: execute_tool_call_def Let_def
          dest!: except_handler_returns split: option.splits if_splits)
qed


lemma execute_tool_call_fault_raises:
  assumes "call_name tc \<in> set (tool_registry self)"
    and "console_print self (calling_line (call_name tc) (call_args tc)) = None"
    and "tool_ainvoke self w (call_name tc) (call_args tc) = (Inl e, w')"
    and "console_print self (failure_line (error_executing_msg (call_name tc) e)) = Some m"
  shows "execute_tool_call self tc (w, msgs, results) = Inl (MarkupError m)"
  using assms by (simp add: execute_tool_call_def except_handler_def Let_def)

lemma execute_tool_call_fault_printed:
  assumes "call_name tc \<in> set (tool_registry self)"
    and "console_print self (calling_line (call_name tc) (call_args tc)) = None"
    and "tool_ainvoke self w (call_name tc) (call_args tc) = (Inl e, w')"
    and "console_print self (failure_line (error_executing_msg (call_name tc) e)) = None"
  shows "execute_tool_call self tc (w, msgs, results)
           = Inr (w', msgs,
                  dict_set (call_name tc) (error_executing_msg (call_name tc) e) results)"
  using assms by (simp add: execute_tool_call_def except_handler_def Let_def)

lemma execute_tool_calls_append:
  "execute_tool_calls self (before @ rest) acc
     = (case execute_tool_calls self before acc of
          Inl err \<Rightarrow> Inl err
        | Inr acc' \<Rightarrow> execute_tool_calls self rest acc')"
  by (induction before arbitrary: acc) (auto split: sum.splits)

lemma execute_tool_calls_keys:
  assumes "execute_tool_calls self calls acc = Inr acc'"
  shows "set (dict_keys (snd (snd acc')))
           = call_name ` set calls \<union> set (dict_keys (snd (snd acc)))"
  using assms
proof (induction calls arbitrary: acc)
  case Nil
  then show ?case by simp
next
  case (Cons tc calls)
  from Cons.prems obtain acc1 where
    one: "execute_tool_call self tc acc = Inr acc1"
    and rest: "execute_tool_calls self calls acc1 = Inr acc'"
    by (auto split: sum.splits)
  obtain w msgs results where acc: "acc = (w, msgs, results)" by (cases acc)
  obtain w1 msgs1 results1 where acc1: "acc1 = (w1, msgs1, results1)" by (cases acc1)
  from one acc acc1 have "results1 = dict_set (call_name tc) (call_outcome self w tc) results"
    by (simp add: execute_tool_call_returns)
  then have "set (dict_keys results1) = insert (call_name tc) (set (dict_keys results))"
    by (simp add: dict_set_keys)
  with Cons.IH [OF rest] acc acc1 show ?case by auto
qed

lemma execute_tool_calls_messages:
  assumes "execute_tool_calls self calls acc = Inr acc'"
  shows "prefix (fst (snd acc)) (fst (snd acc'))"
  using assms
proof (induction calls arbitrary: acc)
  case Nil
  then show ?case by simp
next
  case (Cons tc calls)
  from Cons.prems obtain acc1 where
    one: "execute_tool_call self tc acc = Inr acc1"
    and rest: "execute_tool_calls self calls acc1 = Inr acc'"
    by (auto split: sum.splits)
  obtain w msgs results where acc: "acc = (w, msgs, results)" by (cases acc)
  obtain w1 msgs1 results1 where acc1: "acc1 = (w1, msgs1, results1)" by (cases acc1)
  from one acc acc1 have "prefix msgs msgs1" by (simp add: execute_tool_call_returns)
  moreover from Cons.IH [OF rest] acc1 have "prefix msgs1 (fst (snd acc'))" by simp
  ultimately show ?case using acc by (auto intro: prefix_order.trans)
qed

text \<open>The node returns exactly when the tools are bound, the model answers and the loop ends.\<close>

lemma tool_execution_node_returns:
  assumes "find (\<lambda>tool_name. tool_name \<notin> set (tool_registry self)) (selected_tools state) = None"
    and "llm_ainvoke self w (selected_tools state)
           (messages state @ [HumanMessage (planning_prompt state)]) = (Inr response, w')"
    and "execute_tool_calls self (tool_calls response)
           (w', messages state @ [HumanMessage (planning_prompt state), response],
            tool_results state) = Inr (w'', msgs', results')"
  shows "tool_execution_node self w state =
     Inr (w'', state\<lparr>messages := msgs', tool_results := results',
                     iteration_count := iteration_count state + 1\<rparr>)"
  using assms by (simp add: tool_execution_node_def Let_def)

lemma tool_execution_node_Inr:
  assumes "tool_execution_node self w state = Inr (w'', state')"
  obtains response w' msgs' results' where
    "find (\<lambda>tool_name. tool_name \<notin> set (tool_registry self)) (selected_tools state) = None"
    "llm_ainvoke self w (selected_tools state)
       (messages state @ [HumanMessage (planning_prompt state)]) = (Inr response, w')"
    "execute_tool_calls self (tool_calls response)
       (w', messages state @ [HumanMessage (planning_prompt state), response],
        tool_results state) = Inr (w'', msgs', results')"
    "state' = state\<lparr>messages := msgs', tool_results := results',
                    iteration_count := iteration_count state + 1\<rparr>"
proof -
  from assms
  have f: "find (\<lambda>tool_name. tool_name \<notin> set (tool_registry self)) (selected_tools state) = None"
    by (auto simp: tool_execution_node_def Let_def split: option.splits)
  obtain r w' where r: "llm_ainvoke self w (selected_tools state)
       (messages state @ [HumanMessage (planning_prompt state)]) = (r, w')"
    by (cases "llm_ainvoke self w (selected_tools state)
       (messages state @ [HumanMessage (planning_prompt state)])")
  from assms f r obtain response where resp: "r = Inr response"
    by (cases r) (auto simp: tool_execution_node_def Let_def)
  from assms f r resp obtain acc' where
    e: "execute_tool_calls self (tool_calls response)
       (w', messages state @ [HumanMessage (planning_prompt state), response],
        tool_results state) = Inr acc'"
    by (auto simp: tool_execution_node_def Let_def split: sum.splits)
  obtain w2 msgs' results' where acc': "acc' = (w2, msgs', results')" by (cases acc')
  from assms f r resp e acc'
  have "w2 = w''" and "state' = state\<lparr>messages := msgs', tool_results := results',
                    iteration_count := iteration_count state + 1\<rparr>"
    by (auto simp: tool_execution_node_def Let_def)
  with that [OF f _ _ this(2)] r resp e acc' show ?thesis by simp
qed

lemma tool_execution_node_counts:
  "tool_execution_node self w state = Inr (w', state') \<Longrightarrow>
     iteration_count state' = iteration_count state + 1
     \<and> max_iterations state' = max_iterations state
     \<and> selected_tools state' = selected_tools state
     \<and> current_query state' = current_query state"
  by (erule tool_execution_node_Inr) simp


section \<open>Facts about runs of the graph\<close>

lemma graph_run_code [code]:
  "graph_run self n w state =
     (if n = END then ([], Inr (w, state))
      else if isl (run_node self n w state)
        then ([(n, state)], Inl (projl (run_node self n w state)))
      else entered n state
             (graph_run self (next_node n (snd (projr (run_node self n w state))))
                (fst (projr (run_node self n w state)))
                (snd (projr (run_node self n w state)))))"
  by (subst graph_run.simps) (auto split: sum.splits)

lemma graph_run_END: "graph_run self END w state = ([], Inr (w, state))"
  by (simp add: graph_run.simps)

lemma graph_run_raises:
  "n \<noteq> END \<Longrightarrow> run_node self n w state = Inl e \<Longrightarrow>
     graph_run self n w state = ([(n, state)], Inl e)"
  by (simp add: graph_run.simps)

lemma graph_run_step:
  "n \<noteq> END \<Longrightarrow> run_node self n w state = Inr (w', state') \<Longrightarrow>
     graph_run self n w state
       = entered n state (graph_run self (next_node n state') w' state')"
  by (simp add: graph_run.simps)

lemma graph_run_START:
  "graph_run self START w state
     = entered START state (entered Query_analysis state
         (graph_run self Tool_execution w (query_analysis_node self state)))"
proof -
  have "graph_run self START w state = entered START state (graph_run self Query_analysis w state)"
    by (simp add: graph_run_step [of START self w state w state] run_node_def next_node_def)
  also have "graph_run self Query_analysis w state
      = entered Query_analysis state
          (graph_run self Tool_execution w (query_analysis_node self state))"
    by (simp add: graph_run_step [of Query_analysis self w state w "query_analysis_node self state"]
          run_node_def next_node_def)
  finally show ?thesis .
qed

lemma graph_run_first:
  "n \<noteq> END \<Longrightarrow> \<exists>rest. fst (graph_run self n w state) = (n, state) # rest"
  by (cases "run_node self n w state")
     (auto simp: graph_run_raises graph_run_step entered_def)

lemma should_continue_budget:
  "should_continue state = Tool_execution \<Longrightarrow> iteration_count state < max_iterations state"
  by (auto simp: should_continue_def split: if_splits)

lemma should_continue_range:
  "should_continue state = Tool_execution \<or> should_continue state = Response_generation"
  by (simp add: should_continue_def)

lemma response_generation_node_keeps:
  "response_generation_node self w state = Inr (w', state') \<Longrightarrow>
     iteration_count state' = iteration_count state
     \<and> max_iterations state' = max_iterations state
     \<and> tool_results state' = tool_results state
     \<and> selected_tools state' = selected_tools state"
  by (auto simp: response_generation_node_def Let_def split: sum.splits prod.splits)

text \<open>
  A property of node and state that every edge of the graph carries over holds at every
  node a run enters and of the state the run returns.
\<close>

lemma graph_run_invariant:
  assumes "\<And>n w s w' s'. n \<noteq> END \<Longrightarrow> I n s \<Longrightarrow> run_node self n w s = Inr (w', s')
             \<Longrightarrow> I (next_node n s') s'"
    and "I n state"
  shows "(\<forall>entry \<in> set (fst (graph_run self n w state)). I (fst entry) (snd entry))
         \<and> (\<forall>w' sf. snd (graph_run self n w state) = Inr (w', sf) \<longrightarrow> I END sf)"
  using assms
proof (induction self n w state rule: graph_run.induct)
  case (1 self n w state)
  show ?case
  proof (cases "n = END")
    case True
    with "1.prems"(2) show ?thesis by (simp add: graph_run_END)
  next
    case False
    show ?thesis
    proof (cases "run_node self n w state")
      case (Inl e)
      with False "1.prems"(2) show ?thesis by (simp add: graph_run_raises)
    next
      case (Inr x2)
      obtain w' state' where x2: "x2 = (w', state')" by (cases x2)
      with Inr have run: "run_node self n w state = Inr (w', state')" by simp
      from "1.prems"(1) [OF False "1.prems"(2) run]
      have next_ok: "I (next_node n state') state'" .
      have ih: "(\<forall>entry \<in> set (fst (graph_run self (next_node n state') w' state')).
                  I (fst entry) (snd entry))
                \<and> (\<forall>w'' sf. snd (graph_run self (next_node n state') w' state') = Inr (w'', sf)
                     \<longrightarrow> I END sf)"
        by (rule "1.IH" [OF False Inr x2 [symmetric] "1.prems"(1) next_ok])
      with "1.prems"(2) show ?thesis
        by (simp add: graph_run_step [OF False run] entered_def)
    qed
  qed
qed

lemma budget_invariant_step:
  assumes "n \<noteq> END" and "budget_invariant n s" and "run_node self n w s = Inr (w', s')"
  shows "budget_invariant (next_node n s') s'"
proof (cases n)
  case START
  then show ?thesis by (simp add: next_node_def budget_invariant_def)
next
  case Query_analysis
  with assms(3) have "s' = query_analysis_node self s" by (simp add: run_node_def)
  with Query_analysis show ?thesis
    by (simp add: next_node_def budget_invariant_def query_analysis_node_fields)
next
  case Tool_execution
  with assms(3) have "tool_execution_node self w s = Inr (w', s')" by (simp add: run_node_def)
  then have c: "iteration_count s' = iteration_count s + 1" "max_iterations s' = max_iterations s"
    by (simp_all add: tool_execution_node_counts)
  from assms(2) Tool_execution
  have b: "0 \<le> iteration_count s" "iteration_count s < max_iterations s"
    by (simp_all add: budget_invariant_def)
  from should_continue_range [of s'] show ?thesis
  proof
    assume sc: "should_continue s' = Tool_execution"
    from should_continue_budget [OF sc] b c Tool_execution sc show ?thesis
      by (simp add: next_node_def budget_invariant_def)
  next
    assume sc: "should_continue s' = Response_generation"
    with b c Tool_execution show ?thesis
      by (simp add: next_node_def budget_invariant_def)
  qed
next
  case Response_generation
  with assms(3) have "response_generation_node self w s = Inr (w', s')"
    by (simp add: run_node_def)
  from response_generation_node_keeps [OF this] assms(2) Response_generation show ?thesis
    by (simp add: next_node_def budget_invariant_def)
next
  case END
  with assms(1) show ?thesis by simp
qed

lemma ainvoke_budget_invariant:
  "(\<forall>entry \<in> set (fst (ainvoke self w state)). budget_invariant (fst entry) (snd entry))
   \<and> (\<forall>w' sf. snd (ainvoke self w state) = Inr (w', sf) \<longrightarrow> budget_invariant END sf)"
  unfolding ainvoke_def
proof (rule graph_run_invariant [where I = budget_invariant])
  show "budget_invariant START state" by (simp add: budget_invariant_def)
next
  fix n w s w' s'
  assume "n \<noteq> END" "budget_invariant n s" "run_node self n w s = Inr (w', s')"
  then show "budget_invariant (next_node n s') s'" by (rule budget_invariant_step)
qed

text \<open>From tool execution on, the counter grows by the number of passes.\<close>

lemma passes_counted:
  assumes "n = Tool_execution \<or> n = Response_generation \<or> n = END"
    and "snd (graph_run self n w state) = Inr (w', sf)"
  shows "iteration_count sf
           = iteration_count state + int (passes (fst (graph_run self n w state)))"
  using assms
proof (induction self n w state rule: graph_run.induct)
  case (1 self n w state)
  show ?case
  proof (cases "n = END")
    case True
    with "1.prems"(2) show ?thesis by (simp add: graph_run_END passes_def)
  next
    case False
    show ?thesis
    proof (cases "run_node self n w state")
      case (Inl e)
      with False "1.prems"(2) show ?thesis by (simp add: graph_run_raises)
    next
      case (Inr x2)
      obtain w1 state' where x2: "x2 = (w1, state')" by (cases x2)
      with Inr have run: "run_node self n w state = Inr (w1, state')" by simp
      note unfold = graph_run_step [OF False run]
      from "1.prems"(1) should_continue_range [of state']
      have nxt: "next_node n state' = Tool_execution \<or> next_node n state' = Response_generation
                   \<or> next_node n state' = END"
        by (auto simp: next_node_def)
      from "1.prems"(2) have out: "snd (graph_run self (next_node n state') w1 state') = Inr (w', sf)"
        by (simp add: unfold entered_def)
      have ih: "iteration_count sf = iteration_count state'
                  + int (passes (fst (graph_run self (next_node n state') w1 state')))"
        by (rule "1.IH" [OF False Inr x2 [symmetric] nxt out])
      from "1.prems"(1) False consider "n = Tool_execution" | "n = Response_generation" by blast
      then show ?thesis
      proof cases
        case 1
        with run have "tool_execution_node self w state = Inr (w1, state')"
          by (simp add: run_node_def)
        then have "iteration_count state' = iteration_count state + 1"
          by (simp add: tool_execution_node_counts)
        with ih 1 show ?thesis unfolding unfold by (simp add: entered_def passes_def)
      next
        case 2
        with run have "response_generation_node self w state = Inr (w1, state')"
          by (simp add: run_node_def)
        then have "iteration_count state' = iteration_count state"
          by (simp add: response_generation_node_keeps)
        with ih 2 show ?thesis unfolding unfold by (simp add: entered_def passes_def)
      qed
    qed
  qed
qed

lemma ainvoke_passes_counted:
  assumes "snd (ainvoke self w state) = Inr (w', sf)"
  shows "iteration_count sf = int (passes (fst (ainvoke self w state)))"
proof -
  let ?r = "graph_run self Tool_execution w (query_analysis_node self state)"
  from assms have "snd ?r = Inr (w', sf)"
    by (simp add: ainvoke_def graph_run_START entered_def)
  from passes_counted [OF _ this]
  have "iteration_count sf = int (passes (fst ?r))"
    by (simp add: query_analysis_node_fields)
  then show ?thesis
    by (simp add: ainvoke_def graph_run_START entered_def passes_def)
qed

section \<open>C1: the counter stays inside the budget\<close>

text \<open>
  Claim C1. On every run of the graph, \<open>iteration_count\<close> is at most
  \<open>max_iterations\<close> when the loop is left: at the entry of response generation and in
  the state the run returns. Query analysis sets the counter to 0; a pass of tool
  execution adds exactly one to it and leaves the budget as it is, whatever the two
  values are; the counter the run returns is the number of passes. The bound comes from
  rule 1 of \<open>should_continue\<close>, which stops as soon as the counter has reached the
  budget.
\<close>

theorem iteration_count_bounded:
  "iteration_count (query_analysis_node self state) = 0
   \<and> (\<forall>w' state'. tool_execution_node self w state = Inr (w', state')
         \<longrightarrow> iteration_count state' = iteration_count state + 1
             \<and> max_iterations state' = max_iterations state)
   \<and> (max_iterations state \<le> iteration_count state
         \<longrightarrow> should_continue state = Response_generation)
   \<and> (\<forall>s. (Response_generation, s) \<in> set (fst (ainvoke self w state))
         \<longrightarrow> iteration_count s \<le> max_iterations s)
   \<and> (\<forall>w' sf. snd (ainvoke self w state) = Inr (w', sf)
         \<longrightarrow> iteration_count sf \<le> max_iterations sf
             \<and> iteration_count sf = int (passes (fst (ainvoke self w state))))"
proof -
  have 1: "iteration_count (query_analysis_node self state) = 0"
    by (simp add: query_analysis_node_fields)
  have 2: "iteration_count state' = iteration_count state + 1
             \<and> max_iterations state' = max_iterations state"
    if "tool_execution_node self w state = Inr (w', state')" for w' state'
    using tool_execution_node_counts [OF that] by simp
  have 3: "should_continue state = Response_generation"
    if "max_iterations state \<le> iteration_count state"
    using that by (simp add: should_continue_def)
  note inv = ainvoke_budget_invariant [of self w state]
  have 4: "iteration_count s \<le> max_iterations s"
    if "(Response_generation, s) \<in> set (fst (ainvoke self w state))" for s
  proof -
    from inv that have "budget_invariant (fst (Response_generation, s)) (snd (Response_generation, s))"
      by blast
    then show ?thesis by (simp add: budget_invariant_def)
  qed
  have 5: "iteration_count sf \<le> max_iterations sf
             \<and> iteration_count sf = int (passes (fst (ainvoke self w state)))"
    if "snd (ainvoke self w state) = Inr (w', sf)" for w' sf
  proof -
    from inv that have "budget_invariant END sf" by blast
    then have "iteration_count sf \<le> max_iterations sf" by (simp add: budget_invariant_def)
    with ainvoke_passes_counted [OF that] show ?thesis by simp
  qed
  from 1 2 3 4 5 show ?thesis by blast
qed

theorem iteration_count_bounded_witness:
  "(Response_generation, tidy_response_entry) \<in> set (fst tidy_run)
   \<and> snd tidy_run = Inr (2, tidy_final)
   \<and> iteration_count tidy_response_entry = 1
   \<and> max_iterations tidy_response_entry = 10
   \<and> iteration_count tidy_response_entry \<le> max_iterations tidy_response_entry
   \<and> iteration_count tidy_final \<le> max_iterations tidy_final
   \<and> iteration_count tidy_final = int (passes (fst tidy_run))"
proof -
  have a: "fst tidy_run \<noteq> [] \<and> fst (last (fst tidy_run)) = Response_generation
             \<and> iteration_count tidy_response_entry = 1
             \<and> max_iterations tidy_response_entry = 10"
    by code_simp
  then have "last (fst tidy_run) = (Response_generation, tidy_response_entry)"
    by (simp add: tidy_response_entry_def prod_eq_iff)
  with a have m: "(Response_generation, tidy_response_entry) \<in> set (fst tidy_run)"
    using last_in_set [of "fst tidy_run"] by simp
  have f: "snd tidy_run = Inr (2, tidy_final)"
    by code_simp
  note t = iteration_count_bounded [of scripted_agent "initial_state ''tidy up''" 0,
      folded tidy_run_def]
  from t m have b: "iteration_count tidy_response_entry \<le> max_iterations tidy_response_entry"
    by blast
  from t f have c: "iteration_count tidy_final \<le> max_iterations tidy_final
             \<and> iteration_count tidy_final = int (passes (fst tidy_run))"
    by blast
  from a m f b c show ?thesis by blast
qed

section \<open>C2: the continuation predicate\<close>

lemma continue_indicators_Nil: "\<not> any_in continue_indicators []"
  by (simp add: any_in_def continue_indicators_def)

lemma lower_not_found: "lower ''not found'' = ''not found''"
  by code_simp

lemma not_found_incomplete: "''not found'' \<in> set incomplete_indicators"
  by (simp add: incomplete_indicators_def)

lemma last_dict_values: "results \<noteq> [] \<Longrightarrow> last (dict_values results) = snd (last results)"
  by (simp add: dict_values_def last_map)

lemma dict_set_new_key_last:
  "k \<notin> set (dict_keys d) \<Longrightarrow> dict_set k v d = d @ [(k, v)]"
  by (induction d) (auto simp: dict_keys_def)

lemma dict_set_last_key:
  "distinct (dict_keys d) \<Longrightarrow> d \<noteq> [] \<Longrightarrow> fst (last d) = k \<Longrightarrow>
     dict_set k v d = butlast d @ [(k, v)]"
proof (induction d)
  case Nil
  then show ?case by simp
next
  case (Cons kv d)
  show ?case
  proof (cases "d = []")
    case True
    with Cons.prems show ?thesis by simp
  next
    case False
    with Cons.prems have l: "fst (last d) = k" by simp
    from False have "last d \<in> set d" by simp
    with l have "k \<in> fst ` set d" by force
    with Cons.prems(1) have "fst kv \<noteq> k" by (auto simp: dict_keys_def)
    moreover from Cons.prems(1) have "distinct (dict_keys d)" by (simp add: dict_keys_def)
    ultimately show ?thesis using Cons.IH False l by simp
  qed
qed

text \<open>
  Claim C2, as the code has it, for the states in which the latest tool result is the
  last entry of the results. \<open>should_continue\<close> decides in this order, the first match
  winning: (1) the budget is used up: stop; (2) there are no results: continue; (3) the
  text of the most recent message, lowercased, contains one of the phrases of
  \<open>continue_indicators\<close>: continue; (4) the text of the latest tool result, lowercased,
  contains one of the phrases of \<open>incomplete_indicators\<close>: continue; (5) otherwise
  stop. In particular such a state with budget left whose latest tool result contains
  \<open>not found\<close> continues. The outcome of a call is the last entry when the call has
  completed and its name had no entry before, or had the last one.
\<close>

theorem continuation_rules:
  "(tool_results state = [] \<or> snd (last (tool_results state)) = latest
      \<longrightarrow> should_continue state =
           (if max_iterations state \<le> iteration_count state then Response_generation
            else if tool_results state = [] then Tool_execution
            else if messages state \<noteq> []
                    \<and> (\<exists>phrase \<in> set continue_indicators.
                          sublist phrase (lower (content (last (messages state)))))
              then Tool_execution
            else if (\<exists>phrase \<in> set incomplete_indicators. sublist phrase (lower latest))
              then Tool_execution
            else Response_generation))
   \<and> (iteration_count state < max_iterations state
        \<and> tool_results state \<noteq> []
        \<and> snd (last (tool_results state)) = latest
        \<and> sublist ''not found'' latest
       \<longrightarrow> should_continue state = Tool_execution)
   \<and> (execute_tool_call self tc (w, msgs, results) = Inr (w', msgs', results')
        \<and> (call_name tc \<notin> set (dict_keys results)
            \<or> distinct (dict_keys results) \<and> results \<noteq> []
               \<and> fst (last results) = call_name tc)
       \<longrightarrow> results' \<noteq> [] \<and> last results' = (call_name tc, call_outcome self w tc))"
proof -
  have r3: "(messages state \<noteq> []
              \<and> content (last (messages state)) \<noteq> []
              \<and> any_in continue_indicators (lower (content (last (messages state)))))
            \<longleftrightarrow> (messages state \<noteq> []
              \<and> (\<exists>phrase \<in> set continue_indicators.
                    sublist phrase (lower (content (last (messages state))))))"
  proof (cases "content (last (messages state)) = []")
    case True
    then have "\<not> any_in continue_indicators (lower (content (last (messages state))))"
      by (simp add: lower_def continue_indicators_Nil)
    with True show ?thesis by (simp add: any_in_iff)
  next
    case False
    then show ?thesis by (simp add: any_in_iff)
  qed
  have r4: "(tool_results state \<noteq> []
              \<and> any_in incomplete_indicators (lower (last (dict_values (tool_results state)))))
            \<longleftrightarrow> (\<exists>phrase \<in> set incomplete_indicators. sublist phrase (lower latest))"
    if "tool_results state \<noteq> []" and "snd (last (tool_results state)) = latest"
    using that by (simp add: any_in_iff last_dict_values)
  have eq: "should_continue state =
           (if max_iterations state \<le> iteration_count state then Response_generation
            else if tool_results state = [] then Tool_execution
            else if messages state \<noteq> []
                    \<and> (\<exists>phrase \<in> set continue_indicators.
                          sublist phrase (lower (content (last (messages state)))))
              then Tool_execution
            else if (\<exists>phrase \<in> set incomplete_indicators. sublist phrase (lower latest))
              then Tool_execution
            else Response_generation)"
    if l: "tool_results state = [] \<or> snd (last (tool_results state)) = latest"
  proof (cases "tool_results state = []")
    case True
    then show ?thesis by (simp add: should_continue_def)
  next
    case False
    with l have "snd (last (tool_results state)) = latest" by simp
    from r4 [OF False this] show ?thesis
      unfolding should_continue_def r3 using False by simp
  qed
  have part: "should_continue state = Tool_execution"
    if b: "iteration_count state < max_iterations state"
      and ne: "tool_results state \<noteq> []"
      and l: "snd (last (tool_results state)) = latest"
      and nf: "sublist ''not found'' latest"
  proof -
    from nf have "sublist ''not found'' (lower latest)"
      using sublist_lower [of "''not found''"] by (simp only: lower_not_found)
    with not_found_incomplete
    have "\<exists>phrase \<in> set incomplete_indicators. sublist phrase (lower latest)"
      by blast
    with b ne eq [of] l show ?thesis by simp
  qed
  have link: "results' \<noteq> [] \<and> last results' = (call_name tc, call_outcome self w tc)"
    if c: "execute_tool_call self tc (w, msgs, results) = Inr (w', msgs', results')"
      and k: "call_name tc \<notin> set (dict_keys results)
            \<or> distinct (dict_keys results) \<and> results \<noteq> []
               \<and> fst (last results) = call_name tc"
  proof -
    from c have r: "results' = dict_set (call_name tc) (call_outcome self w tc) results"
      by (rule execute_tool_call_returns)
    from k show ?thesis
    proof
      assume "call_name tc \<notin> set (dict_keys results)"
      then show ?thesis unfolding r by (simp add: dict_set_new_key_last)
    next
      assume "distinct (dict_keys results) \<and> results \<noteq> []
               \<and> fst (last results) = call_name tc"
      then show ?thesis unfolding r by (simp add: dict_set_last_key)
    qed
  qed
  from eq part link show ?thesis by blast
qed

theorem continuation_rules_witness:
  "iteration_count not_found_state < max_iterations not_found_state
   \<and> tool_results not_found_state \<noteq> []
   \<and> snd (last (tool_results not_found_state)) = ''Repository demo not found''
   \<and> sublist ''not found'' ''Repository demo not found''
   \<and> \<not> any_in continue_indicators (lower (content (last (messages not_found_state))))
   \<and> should_continue not_found_state = Tool_execution
   \<and> execute_tool_call stale_agent
        (ToolCall ''get_repository_info'' [(''repo_name'', ''demo'')] ''call_1'') (1, [], [])
       = Inr (1, [ToolMessage ''Repository demo not found'' ''call_1''],
              [(''get_repository_info'', ''Repository demo not found'')])
   \<and> ''get_repository_info'' \<notin> set (dict_keys ([] :: (string \<times> string) list))
   \<and> last (tool_results not_found_state)
       = (''get_repository_info'',
          call_outcome stale_agent 1
            (ToolCall ''get_repository_info'' [(''repo_name'', ''demo'')] ''call_1''))"
proof -
  have b: "iteration_count not_found_state < max_iterations not_found_state"
    by code_simp
  have ne: "tool_results not_found_state \<noteq> []"
    by (simp add: not_found_state_def)
  have l: "snd (last (tool_results not_found_state)) = ''Repository demo not found''"
    by (simp add: not_found_state_def)
  have "str_in ''not found'' ''Repository demo not found''"
    by code_simp
  then have nf: "sublist ''not found'' ''Repository demo not found''"
    by (simp only: str_in_sublist)
  have r3: "\<not> any_in continue_indicators (lower (content (last (messages not_found_state))))"
    by code_simp
  have c: "execute_tool_call stale_agent
        (ToolCall ''get_repository_info'' [(''repo_name'', ''demo'')] ''call_1'') (1, [], [])
       = Inr (1, [ToolMessage ''Repository demo not found'' ''call_1''],
              [(''get_repository_info'', ''Repository demo not found'')])"
    by code_simp
  have k: "''get_repository_info'' \<notin> set (dict_keys ([] :: (string \<times> string) list))"
    by (simp add: dict_keys_def)
  have s: "tool_results not_found_state
             = [(''get_repository_info'', ''Repository demo not found'')]"
    by (simp add: not_found_state_def)
  note t = continuation_rules [of not_found_state "''Repository demo not found''" stale_agent
      "ToolCall ''get_repository_info'' [(''repo_name'', ''demo'')] ''call_1''" 1 "[]" "[]" 1
      "[ToolMessage ''Repository demo not found'' ''call_1'']"
      "[(''get_repository_info'', ''Repository demo not found'')]"]
  from t b ne l nf have d: "should_continue not_found_state = Tool_execution"
    by blast
  from t c k
  have "last [(''get_repository_info'', ''Repository demo not found'')]
          = (call_name (ToolCall ''get_repository_info'' [(''repo_name'', ''demo'')] ''call_1''),
             call_outcome stale_agent 1
               (ToolCall ''get_repository_info'' [(''repo_name'', ''demo'')] ''call_1''))"
    by simp
  then have o: "last (tool_results not_found_state)
       = (''get_repository_info'',
          call_outcome stale_agent 1
            (ToolCall ''get_repository_info'' [(''repo_name'', ''demo'')] ''call_1''))"
    unfolding s by simp
  from b ne l nf r3 d c k o show ?thesis by blast
qed

text \<open>
  The claim as stated fails where the most recent message holds a phrase in another
  case. In \<open>capitalised_state\<close> budget is left and the results are not empty; the text
  of the last message, \<open>Created branch dev. Next: open the PR\<close>, holds none of the
  phrases of rule 3 as it stands, and the last result none of rule 4 in any case, so the
  rules as worded stop. The code lowercases the message, finds \<open>next\<close> and continues.
\<close>

theorem continuation_counterexample:
  "iteration_count capitalised_state < max_iterations capitalised_state
   \<and> tool_results capitalised_state \<noteq> []
   \<and> \<not> any_in continue_indicators (content (last (messages capitalised_state)))
   \<and> \<not> any_in incomplete_indicators (lower (last (dict_values (tool_results capitalised_state))))
   \<and> continuation_as_worded capitalised_state = Response_generation
   \<and> should_continue capitalised_state = Tool_execution"
  by code_simp

section \<open>The entry that rule 4 reads\<close>

text \<open>
  A tool that is run again keeps its place among the keys of the results, so the last
  entry, which rule 4 of \<open>should_continue\<close> reads, is not always the result produced
  last. In \<open>stale_run\<close> the second pass runs \<open>get_repository_info\<close> only; its result,
  \<open>Repository demo not found\<close>, is the last message and replaces the first entry of
  the results; the last entry is still the result of \<open>list_branches\<close> from the first
  pass. Budget is left, and the loop is left for response generation after this pass.
\<close>

theorem rerun_keeps_position:
  "map fst (fst stale_run)
     = [START, Query_analysis, Tool_execution, Tool_execution, Response_generation]
   \<and> tool_results stale_response_entry
       = [(''get_repository_info'', ''Repository demo not found''),
          (''list_branches'', ''Branches: main. Next: pick one'')]
   \<and> last (messages stale_response_entry) = ToolMessage ''Repository demo not found'' ''call_3''
   \<and> iteration_count stale_response_entry = 2
   \<and> max_iterations stale_response_entry = 10
   \<and> should_continue stale_response_entry = Response_generation
   \<and> dict_set ''get_repository_info'' ''Repository demo not found''
        [(''get_repository_info'', ''Repository demo not found''),
         (''list_branches'', ''Branches: main. Next: pick one'')]
       = [(''get_repository_info'', ''Repository demo not found''),
          (''list_branches'', ''Branches: main. Next: pick one'')]"
  by code_simp

section \<open>C3: the budget of a complex query\<close>

text \<open>
  Claim C3. Every query that \<open>query_analysis_node\<close> classifies complex gets a value of
  \<open>max_iterations\<close> strictly below the one a query that is not complex gets: 5 against
  10. A query is classified complex exactly when its lowercased text contains one of the
  indicators, each a conjunction between two spaces.
\<close>

theorem complex_budget_lower:
  "(is_complex_query (query_analysis_node self state)
      \<longleftrightarrow> (\<exists>indicator \<in> set ['' and '', '' then '', '' after '', '' next ''].
             sublist indicator (lower (current_query state))))
   \<and> (is_complex_query (query_analysis_node self state)
        \<longrightarrow> max_iterations (query_analysis_node self state) = 5)
   \<and> (\<not> is_complex_query (query_analysis_node self state)
        \<longrightarrow> max_iterations (query_analysis_node self state) = 10)
   \<and> (is_complex_query (query_analysis_node self state)
        \<and> \<not> is_complex_query (query_analysis_node self' state')
        \<longrightarrow> max_iterations (query_analysis_node self state)
              < max_iterations (query_analysis_node self' state'))"
proof -
  have classified: "is_complex_query (query_analysis_node self state)
      \<longleftrightarrow> (\<exists>indicator \<in> set ['' and '', '' then '', '' after '', '' next ''].
             sublist indicator (lower (current_query state)))"
    unfolding query_analysis_node_fields any_in_iff complex_indicators_def ..
  have complex: "max_iterations (query_analysis_node self state) = 5"
    if "is_complex_query (query_analysis_node self state)"
    using that by (simp add: query_analysis_node_fields)
  have plain: "max_iterations (query_analysis_node a s) = 10"
    if "\<not> is_complex_query (query_analysis_node a s)" for a :: "'b agent" and s
    using that by (simp add: query_analysis_node_fields)
  have plain_here: "max_iterations (query_analysis_node self state) = 10"
    if "\<not> is_complex_query (query_analysis_node self state)"
    using that by (simp add: query_analysis_node_fields)
  have lower: "max_iterations (query_analysis_node self state)
              < max_iterations (query_analysis_node self' state')"
    if "is_complex_query (query_analysis_node self state)"
      and "\<not> is_complex_query (query_analysis_node self' state')"
    using complex [OF that(1)] plain [OF that(2)] by simp
  from classified complex plain_here lower show ?thesis by blast
qed

theorem complex_budget_lower_witness:
  "is_complex_query
     (query_analysis_node scripted_agent (initial_state ''create a branch and then open a PR''))
   \<and> \<not> is_complex_query (query_analysis_node scripted_agent (initial_state ''list the branches''))
   \<and> max_iterations
        (query_analysis_node scripted_agent (initial_state ''create a branch and then open a PR''))
       < max_iterations (query_analysis_node scripted_agent (initial_state ''list the branches''))
   \<and> max_iterations
        (query_analysis_node scripted_agent (initial_state ''create a branch and then open a PR''))
       = 5
   \<and> max_iterations (query_analysis_node scripted_agent (initial_state ''list the branches''))
       = 10"
proof -
  have c: "is_complex_query
     (query_analysis_node scripted_agent (initial_state ''create a branch and then open a PR''))"
    by code_simp
  have n: "\<not> is_complex_query
     (query_analysis_node scripted_agent (initial_state ''list the branches''))"
    by code_simp
  from c n
    complex_budget_lower [of scripted_agent "initial_state ''create a branch and then open a PR''"
      scripted_agent "initial_state ''list the branches''"]
    complex_budget_lower [of scripted_agent "initial_state ''list the branches''"]
  show ?thesis by blast
qed

section \<open>C4: a proposed tool that is not registered\<close>





section \<open>C5: a registered tool that raises\<close>

text \<open>
  Claim C5 asks that a fault of a registered tool never ends the loop. The handler stores
  the text of the fault and then prints it as markup (line 233); a fault text that the
  console cannot read makes that print raise inside the handler, and the exception leaves
  the node and the run. Here \<open>create_pull_request\<close> raises with a text that quotes
  \<open>[/old]\<close>: the pass raises \<open>MarkupError\<close>, the call after it is not executed, and
  the run returns no state.
\<close>

theorem tool_fault_escapes:
  "''create_pull_request'' \<in> set (tool_registry markup_agent)
   \<and> tool_ainvoke markup_agent 1 ''create_pull_request'' [(''title'', ''dev'')]
       = (Inl ''unexpected [/old] in reply'', 1)
   \<and> console_print markup_agent
        (calling_line ''create_pull_request'' [(''title'', ''dev'')]) = None
   \<and> llm_ainvoke markup_agent 0 (selected_tools pull_request_state)
         (messages pull_request_state @ [HumanMessage (planning_prompt pull_request_state)])
       = (Inr wandering_response, 1)
   \<and> execute_tool_call markup_agent
        (ToolCall ''create_pull_request'' [(''title'', ''dev'')] ''call_2'')
        (1, [], [(''ghost'', ''Tool ghost not found'')])
       = Inl (MarkupError (''closing tag '' @ squote @ ''[/old]'' @ squote
                @ '' doesn'' @ squote @ ''t match any open tag''))
   \<and> isl (tool_execution_node markup_agent 0 pull_request_state)
   \<and> isl (snd (ainvoke markup_agent 0 (initial_state ''open a pull request for dev'')))
   \<and> map fst (fst (ainvoke markup_agent 0 (initial_state ''open a pull request for dev'')))
       = [START, Query_analysis, Tool_execution]"
  by code_simp

text \<open>Where the handler's print returns, the fault is stored and the loop goes on.\<close>

lemma printed_fault_goes_on:
  assumes "call_name tc \<in> set (tool_registry self)"
    and "console_print self (calling_line (call_name tc) (call_args tc)) = None"
    and "tool_ainvoke self w (call_name tc) (call_args tc) = (Inl e, w')"
    and "console_print self (failure_line (error_executing_msg (call_name tc) e)) = None"
  shows "execute_tool_calls self (tc # rest) (w, msgs, results)
           = execute_tool_calls self rest
               (w', msgs,
                dict_set (call_name tc) (''Error executing '' @ call_name tc @ '': '' @ e) results)"
  using execute_tool_call_fault_printed [OF assms, of msgs results]
  by (simp add: error_executing_msg_def)

section \<open>C6: the contract of the tool selector\<close>

lemma not_yet_present_cong:
  "set present = set present' \<Longrightarrow> not_yet_present present tools = not_yet_present present' tools"
proof (induction tools arbitrary: present present')
  case Nil
  then show ?case by simp
next
  case (Cons tool tools)
  from Cons.prems have "set (tool # present) = set (tool # present')" by simp
  then have "not_yet_present (tool # present) tools = not_yet_present (tool # present') tools"
    by (rule Cons.IH)
  moreover have "not_yet_present present tools = not_yet_present present' tools"
    using Cons.prems by (rule Cons.IH)
  ultimately show ?case using Cons.prems by simp
qed

lemma fold_add_tool_not_yet_present:
  "fold (add_tool registry) tools tool_names
     = tool_names
       @ not_yet_present tool_names (filter (\<lambda>tool. tool \<in> set registry) tools)"
proof (induction tools arbitrary: tool_names)
  case Nil
  then show ?case by simp
next
  case (Cons tool tools)
  show ?case
  proof (cases "tool \<notin> set tool_names \<and> tool \<in> set registry")
    case True
    have "not_yet_present (tool_names @ [tool]) (filter (\<lambda>tool. tool \<in> set registry) tools)
            = not_yet_present (tool # tool_names) (filter (\<lambda>tool. tool \<in> set registry) tools)"
      by (rule not_yet_present_cong) simp
    with True Cons [of "tool_names @ [tool]"] show ?thesis
      by (simp add: add_tool_def)
  next
    case False
    with Cons [of tool_names] show ?thesis by (auto simp: add_tool_def)
  qed
qed

text \<open>
  Claim C6. For every query and registry, \<open>retrieve_relevant_tools\<close> returns at most
  \<open>limit\<close> tool names with no duplicates: the store's ranked matches first, in their
  order, then the tools of the keywords found in the query, each appended in the order of
  the table if it is registered and not yet present, and the whole cut to \<open>limit\<close>.
  The result is given in full: the first \<open>limit\<close> entries of the ranked matches
  followed by \<open>not_yet_present\<close> of the registered keyword tools. The store's search
  is a parameter; it returns each key once, and \<open>limit\<close> counts entries (the code
  calls the selector with its default, 5).
\<close>

theorem tool_selector_contract:
  assumes "distinct (store_search self query limit)" and "0 \<le> limit"
  shows "retrieve_relevant_tools self query limit
           = take (nat limit)
               (store_search self query limit
                @ not_yet_present (store_search self query limit)
                    (filter (\<lambda>tool. tool \<in> set (tool_registry self))
                       (keyword_tools (lower query))))
         \<and> subseq (not_yet_present (store_search self query limit)
                      (filter (\<lambda>tool. tool \<in> set (tool_registry self))
                         (keyword_tools (lower query))))
                   (keyword_tools (lower query))
         \<and> set (not_yet_present (store_search self query limit)
                  (filter (\<lambda>tool. tool \<in> set (tool_registry self))
                     (keyword_tools (lower query))))
             = (set (keyword_tools (lower query)) \<inter> set (tool_registry self))
                 - set (store_search self query limit)
         \<and> distinct (not_yet_present (store_search self query limit)
                       (filter (\<lambda>tool. tool \<in> set (tool_registry self))
                          (keyword_tools (lower query))))
         \<and> length (retrieve_relevant_tools self query limit) \<le> nat limit
         \<and> distinct (retrieve_relevant_tools self query limit)"
proof -
  let ?ranked = "store_search self query limit"
  let ?added = "not_yet_present ?ranked
                  (filter (\<lambda>tool. tool \<in> set (tool_registry self)) (keyword_tools (lower query)))"
  have full: "fold (add_tool (tool_registry self)) (keyword_tools (lower query)) ?ranked
                = ?ranked @ ?added"
    by (rule fold_add_tool_not_yet_present)
  from fold_add_tool_appends [of "tool_registry self" "keyword_tools (lower query)" ?ranked]
  obtain appended where
    a: "fold (add_tool (tool_registry self)) (keyword_tools (lower query)) ?ranked
          = ?ranked @ appended"
      "subseq appended (keyword_tools (lower query))"
      "set appended = (set (keyword_tools (lower query)) \<inter> set (tool_registry self))
                        - set ?ranked"
      "distinct appended"
    by blast
  from a(1) full have same: "appended = ?added" by simp
  from full assms(2)
  have r: "retrieve_relevant_tools self query limit = take (nat limit) (?ranked @ ?added)"
    by (simp add: retrieve_relevant_tools_flat slice_to_def)
  from a(3,4) assms(1) have "distinct (?ranked @ appended)" by auto
  then have "distinct (take (nat limit) (?ranked @ appended))" by (rule distinct_take)
  with r a same show ?thesis by auto
qed

theorem tool_selector_contract_witness:
  "distinct (store_search unranked_agent ''clone it and commit'' 5)
   \<and> (0::int) \<le> 5
   \<and> keyword_tools (lower ''clone it and commit'')
       = [''clone_repository'', ''get_repo_status'', ''pull_changes'',
          ''commit_changes'', ''push_changes'', ''get_repo_status'']
   \<and> not_yet_present (store_search unranked_agent ''clone it and commit'' 5)
        (filter (\<lambda>tool. tool \<in> set (tool_registry unranked_agent))
           (keyword_tools (lower ''clone it and commit'')))
       = [''clone_repository'', ''get_repo_status'', ''pull_changes'',
          ''commit_changes'', ''push_changes'']
   \<and> retrieve_relevant_tools unranked_agent ''clone it and commit'' 5
       = [''clone_repository'', ''get_repo_status'', ''pull_changes'',
          ''commit_changes'', ''push_changes'']
   \<and> length (retrieve_relevant_tools unranked_agent ''clone it and commit'' 5) \<le> nat 5
   \<and> distinct (retrieve_relevant_tools unranked_agent ''clone it and commit'' 5)"
proof -
  have h1: "distinct (store_search unranked_agent ''clone it and commit'' 5)"
    by (simp add: unranked_agent_def)
  have h2: "(0::int) \<le> 5" by simp
  have l: "lower ''clone it and commit'' = ''clone it and commit''"
    by code_simp
  have k: "keyword_tools (lower ''clone it and commit'')
       = [''clone_repository'', ''get_repo_status'', ''pull_changes'',
          ''commit_changes'', ''push_changes'', ''get_repo_status'']"
    unfolding l by (simp add: keyword_tools_def special_tools_def)
  have n: "not_yet_present (store_search unranked_agent ''clone it and commit'' 5)
        (filter (\<lambda>tool. tool \<in> set (tool_registry unranked_agent))
           (keyword_tools (lower ''clone it and commit'')))
       = [''clone_repository'', ''get_repo_status'', ''pull_changes'',
          ''commit_changes'', ''push_changes'']"
    unfolding k by (simp add: unranked_agent_def scripted_agent_def all_tools_def)
  note t = tool_selector_contract [OF h1 h2]
  from t have "retrieve_relevant_tools unranked_agent ''clone it and commit'' 5
       = take (nat 5) (store_search unranked_agent ''clone it and commit'' 5
           @ not_yet_present (store_search unranked_agent ''clone it and commit'' 5)
               (filter (\<lambda>tool. tool \<in> set (tool_registry unranked_agent))
                  (keyword_tools (lower ''clone it and commit''))))"
    by blast
  then have e: "retrieve_relevant_tools unranked_agent ''clone it and commit'' 5
       = [''clone_repository'', ''get_repo_status'', ''pull_changes'',
          ''commit_changes'', ''push_changes'']"
    unfolding n by (simp add: unranked_agent_def)
  from t
  have "length (retrieve_relevant_tools unranked_agent ''clone it and commit'' 5) \<le> nat 5
        \<and> distinct (retrieve_relevant_tools unranked_agent ''clone it and commit'' 5)"
    by blast
  with h1 h2 k n e show ?thesis by blast
qed

section \<open>C7: the branch and pull request scenario\<close>

lemma branch_pr_query_lower:
  "lower ''create a branch and then open a PR'' = ''create a branch and then open a pr''"
  by code_simp

lemma branch_pr_keywords:
  "map fst (filter (\<lambda>entry. str_in (fst entry) ''create a branch and then open a pr'')
     special_tools) = [''branch'', ''pr'']"
  by (simp add: special_tools_def)

lemma branch_pr_keyword_tools:
  "keyword_tools ''create a branch and then open a pr'' =
     [''list_branches'', ''create_branch'', ''delete_branch'', ''checkout_branch'',
      ''list_pull_requests'', ''create_pull_request'', ''merge_pull_request'',
      ''close_pull_request'']"
  by (simp add: keyword_tools_def special_tools_def)

lemma branch_pr_complex:
  "any_in complex_indicators ''create a branch and then open a pr''"
  by code_simp

lemma fold_add_tool_set:
  "set (fold (add_tool registry) tools tool_names)
     = set tool_names \<union> (set tools \<inter> set registry)"
  by (induction tools arbitrary: tool_names) (auto simp: add_tool_def)

text \<open>
  Claim C7, as the code has it. The query is classified complex. The keywords found in
  its lowercased text are \<open>branch\<close> and \<open>pr\<close> (it does not contain \<open>pull request\<close>).
  The shortlist is the first five entries of the ranked matches followed by the registered
  branch tools and then the registered pull request tools that are not yet present; it
  holds \<open>create_branch\<close> and \<open>create_pull_request\<close> when both are registered and that
  list has at most five entries.
\<close>

theorem branch_and_pr_scenario:
  assumes "current_query state = ''create a branch and then open a PR''"
  shows "is_complex_query (query_analysis_node self state)
    \<and> map fst (filter (\<lambda>entry. str_in (fst entry) (lower (current_query state)))
         special_tools) = [''branch'', ''pr'']
    \<and> selected_tools (query_analysis_node self state)
        = take 5 (fold (add_tool (tool_registry self))
            [''list_branches'', ''create_branch'', ''delete_branch'', ''checkout_branch'',
             ''list_pull_requests'', ''create_pull_request'', ''merge_pull_request'',
             ''close_pull_request'']
            (store_search self (current_query state) 5))
    \<and> (''create_branch'' \<in> set (tool_registry self)
        \<and> ''create_pull_request'' \<in> set (tool_registry self)
        \<and> length (fold (add_tool (tool_registry self))
              [''list_branches'', ''create_branch'', ''delete_branch'', ''checkout_branch'',
               ''list_pull_requests'', ''create_pull_request'', ''merge_pull_request'',
               ''close_pull_request'']
              (store_search self (current_query state) 5)) \<le> 5
        \<longrightarrow> ''create_branch'' \<in> set (selected_tools (query_analysis_node self state))
            \<and> ''create_pull_request'' \<in> set (selected_tools (query_analysis_node self state)))"
proof -
  let ?tools = "[''list_branches'', ''create_branch'', ''delete_branch'', ''checkout_branch'',
             ''list_pull_requests'', ''create_pull_request'', ''merge_pull_request'',
             ''close_pull_request'']"
  let ?full = "fold (add_tool (tool_registry self)) ?tools
                 (store_search self (current_query state) 5)"
  have 1: "is_complex_query (query_analysis_node self state)"
    by (simp only: query_analysis_node_fields assms branch_pr_query_lower branch_pr_complex)
  have 2: "map fst (filter (\<lambda>entry. str_in (fst entry) (lower (current_query state)))
         special_tools) = [''branch'', ''pr'']"
    by (simp only: assms branch_pr_query_lower branch_pr_keywords)
  have 3: "selected_tools (query_analysis_node self state) = take 5 ?full"
    by (simp only: query_analysis_node_fields retrieve_relevant_tools_flat assms
          branch_pr_query_lower branch_pr_keyword_tools) (simp add: slice_to_def)
  have 4: "''create_branch'' \<in> set (selected_tools (query_analysis_node self state))
            \<and> ''create_pull_request'' \<in> set (selected_tools (query_analysis_node self state))"
    if reg: "''create_branch'' \<in> set (tool_registry self)"
         "''create_pull_request'' \<in> set (tool_registry self)"
      and len: "length ?full \<le> 5"
  proof -
    from len 3 have "selected_tools (query_analysis_node self state) = ?full" by simp
    moreover have "set ?full = set (store_search self (current_query state) 5)
                     \<union> (set ?tools \<inter> set (tool_registry self))"
      by (rule fold_add_tool_set)
    ultimately show ?thesis using reg by simp
  qed
  from 1 2 3 4 show ?thesis by blast
qed

theorem branch_and_pr_scenario_witness:
  "current_query (initial_state ''create a branch and then open a PR'')
     = ''create a branch and then open a PR''
   \<and> ''create_branch'' \<in> set (tool_registry small_agent)
   \<and> ''create_pull_request'' \<in> set (tool_registry small_agent)
   \<and> length (fold (add_tool (tool_registry small_agent))
              [''list_branches'', ''create_branch'', ''delete_branch'', ''checkout_branch'',
               ''list_pull_requests'', ''create_pull_request'', ''merge_pull_request'',
               ''close_pull_request'']
              (store_search small_agent
                 (current_query (initial_state ''create a branch and then open a PR'')) 5)) \<le> 5
   \<and> is_complex_query
       (query_analysis_node small_agent (initial_state ''create a branch and then open a PR''))
   \<and> ''create_branch'' \<in> set (selected_tools
       (query_analysis_node small_agent (initial_state ''create a branch and then open a PR'')))
   \<and> ''create_pull_request'' \<in> set (selected_tools
       (query_analysis_node small_agent (initial_state ''create a branch and then open a PR'')))"
proof -
  have q: "current_query (initial_state ''create a branch and then open a PR'')
     = ''create a branch and then open a PR''"
    by (simp add: initial_state_def)
  have r: "''create_branch'' \<in> set (tool_registry small_agent)"
    "''create_pull_request'' \<in> set (tool_registry small_agent)"
    by (simp_all add: small_agent_def)
  have l: "length (fold (add_tool (tool_registry small_agent))
              [''list_branches'', ''create_branch'', ''delete_branch'', ''checkout_branch'',
               ''list_pull_requests'', ''create_pull_request'', ''merge_pull_request'',
               ''close_pull_request'']
              (store_search small_agent
                 (current_query (initial_state ''create a branch and then open a PR'')) 5)) \<le> 5"
    by code_simp
  from branch_and_pr_scenario [OF q, of small_agent] q r l show ?thesis by blast
qed

text \<open>
  The claim as stated fails on the registry of the repository even when the store ranks
  nothing: the four branch tools and \<open>list_pull_requests\<close> fill the five places, and
  \<open>create_pull_request\<close> is cut off.
\<close>

theorem branch_and_pr_counterexample:
  "is_complex_query
     (query_analysis_node unranked_agent (initial_state ''create a branch and then open a PR''))
   \<and> ''create_branch'' \<in> set (tool_registry unranked_agent)
   \<and> ''create_pull_request'' \<in> set (tool_registry unranked_agent)
   \<and> retrieve_relevant_tools unranked_agent ''create a branch and then open a PR'' 5
       = [''list_branches'', ''create_branch'', ''delete_branch'', ''checkout_branch'',
          ''list_pull_requests'']
   \<and> ''create_pull_request''
       \<notin> set (retrieve_relevant_tools unranked_agent ''create a branch and then open a PR'' 5)"
  by code_simp

section \<open>C8: the keys of the results\<close>

lemma proposed_names_prefix:
  "prefix msgs msgs' \<Longrightarrow> set (proposed_names msgs) \<subseteq> set (proposed_names msgs')"
  by (auto simp: prefix_def proposed_names_def)

lemma response_generation_node_messages:
  "response_generation_node self w state = Inr (w', state') \<Longrightarrow>
     prefix (messages state) (messages state')"
  by (auto simp: response_generation_node_def Let_def split: sum.splits prod.splits)

lemma execute_tool_calls_distinct:
  assumes "execute_tool_calls self calls acc = Inr acc'"
    and "distinct (dict_keys (snd (snd acc)))"
  shows "distinct (dict_keys (snd (snd acc')))"
  using assms
proof (induction calls arbitrary: acc)
  case Nil
  then show ?case by simp
next
  case (Cons tc calls)
  from Cons.prems(1) obtain acc1 where
    one: "execute_tool_call self tc acc = Inr acc1"
    and rest: "execute_tool_calls self calls acc1 = Inr acc'"
    by (auto split: sum.splits)
  obtain w msgs results where acc: "acc = (w, msgs, results)" by (cases acc)
  obtain w1 msgs1 results1 where acc1: "acc1 = (w1, msgs1, results1)" by (cases acc1)
  from one acc acc1 have "results1 = dict_set (call_name tc) (call_outcome self w tc) results"
    by (simp add: execute_tool_call_returns)
  with Cons.prems(2) acc acc1 have "distinct (dict_keys (snd (snd acc1)))"
    by (simp add: dict_set_distinct)
  with rest show ?case by (rule Cons.IH)
qed

lemma call_outcome_unknown:
  assumes "call_name tc \<notin> set (tool_registry self)"
    and "console_print self (failure_line (not_found_msg (call_name tc))) = None"
  shows "call_outcome self w tc = not_found_msg (call_name tc)"
  using assms by (simp add: call_outcome_def)

lemma execute_tool_calls_unknown_texts:
  assumes "execute_tool_calls self calls acc = Inr acc'"
    and "\<forall>entry \<in> set (snd (snd acc)).
           fst entry \<in> set (tool_registry self)
           \<or> console_print self (failure_line (not_found_msg (fst entry))) \<noteq> None
           \<or> snd entry = not_found_msg (fst entry)"
  shows "\<forall>entry \<in> set (snd (snd acc')).
           fst entry \<in> set (tool_registry self)
           \<or> console_print self (failure_line (not_found_msg (fst entry))) \<noteq> None
           \<or> snd entry = not_found_msg (fst entry)"
  using assms
proof (induction calls arbitrary: acc)
  case Nil
  then show ?case by simp
next
  case (Cons tc calls)
  from Cons.prems(1) obtain acc1 where
    one: "execute_tool_call self tc acc = Inr acc1"
    and rest: "execute_tool_calls self calls acc1 = Inr acc'"
    by (auto split: sum.splits)
  obtain w msgs results where acc: "acc = (w, msgs, results)" by (cases acc)
  obtain w1 msgs1 results1 where acc1: "acc1 = (w1, msgs1, results1)" by (cases acc1)
  from one acc acc1
  have r1: "results1 = dict_set (call_name tc) (call_outcome self w tc) results"
    by (simp add: execute_tool_call_returns)
  have "\<forall>entry \<in> set (snd (snd acc1)).
           fst entry \<in> set (tool_registry self)
           \<or> console_print self (failure_line (not_found_msg (fst entry))) \<noteq> None
           \<or> snd entry = not_found_msg (fst entry)"
  proof
    fix entry
    assume "entry \<in> set (snd (snd acc1))"
    with acc1 r1
    have "(fst entry, snd entry) \<in> set (dict_set (call_name tc) (call_outcome self w tc) results)"
      by simp
    from dict_set_entries [OF this]
    have "(fst entry = call_name tc \<and> snd entry = call_outcome self w tc)
            \<or> (fst entry, snd entry) \<in> set results" .
    then show "fst entry \<in> set (tool_registry self)
           \<or> console_print self (failure_line (not_found_msg (fst entry))) \<noteq> None
           \<or> snd entry = not_found_msg (fst entry)"
    proof
      assume new: "fst entry = call_name tc \<and> snd entry = call_outcome self w tc"
      show ?thesis
      proof (cases "call_name tc \<notin> set (tool_registry self)
                      \<and> console_print self (failure_line (not_found_msg (call_name tc))) = None")
        case True
        then have "call_outcome self w tc = not_found_msg (call_name tc)"
          by (simp add: call_outcome_unknown)
        with new show ?thesis by simp
      next
        case False
        with new show ?thesis by auto
      qed
    next
      assume "(fst entry, snd entry) \<in> set results"
      then have "entry \<in> set (snd (snd acc))" using acc by simp
      with Cons.prems(2) show ?thesis by blast
    qed
  qed
  with rest show ?case by (rule Cons.IH)
qed

lemma tool_execution_node_wellformed:
  assumes node: "tool_execution_node self w state = Inr (w'', state')"
    and wf: "results_wellformed self state"
  shows "results_wellformed self state'"
proof -
  from node obtain response w' msgs' results' where
    e: "execute_tool_calls self (tool_calls response)
       (w', messages state @ [HumanMessage (planning_prompt state), response],
        tool_results state) = Inr (w'', msgs', results')"
    and s: "state' = state\<lparr>messages := msgs', tool_results := results',
                    iteration_count := iteration_count state + 1\<rparr>"
    by (rule tool_execution_node_Inr)
  let ?msgs = "messages state @ [HumanMessage (planning_prompt state), response]"
  from wf have d: "distinct (dict_keys (tool_results state))"
    and p: "set (dict_keys (tool_results state)) \<subseteq> set (proposed_names (messages state))"
    and t: "\<forall>entry \<in> set (tool_results state).
           fst entry \<in> set (tool_registry self)
           \<or> console_print self (failure_line (not_found_msg (fst entry))) \<noteq> None
           \<or> snd entry = not_found_msg (fst entry)"
    by (auto simp: results_wellformed_def list_all_iff)
  from execute_tool_calls_distinct [OF e] d have d': "distinct (dict_keys results')" by simp
  from execute_tool_calls_messages [OF e] have pre: "prefix ?msgs msgs'" by simp
  have "set (proposed_names (messages state)) \<subseteq> set (proposed_names ?msgs)"
    by (rule proposed_names_prefix) simp
  moreover have "call_name ` set (tool_calls response) \<subseteq> set (proposed_names ?msgs)"
    by (auto simp: proposed_names_def)
  moreover from execute_tool_calls_keys [OF e]
  have "set (dict_keys results')
          = call_name ` set (tool_calls response) \<union> set (dict_keys (tool_results state))"
    by simp
  ultimately have "set (dict_keys results') \<subseteq> set (proposed_names ?msgs)"
    using p by auto
  with proposed_names_prefix [OF pre]
  have p': "set (dict_keys results') \<subseteq> set (proposed_names msgs')" by blast
  from execute_tool_calls_unknown_texts [OF e] t
  have t': "\<forall>entry \<in> set results'.
           fst entry \<in> set (tool_registry self)
           \<or> console_print self (failure_line (not_found_msg (fst entry))) \<noteq> None
           \<or> snd entry = not_found_msg (fst entry)"
    by simp
  from d' p' t' s show ?thesis
    by (auto simp: results_wellformed_def list_all_iff)
qed

lemma results_wellformed_step:
  assumes "n \<noteq> END" and "results_wellformed self s"
    and "run_node self n w s = Inr (w', s')"
  shows "results_wellformed self s'"
proof (cases n)
  case START
  with assms show ?thesis by (simp add: run_node_def)
next
  case Query_analysis
  with assms(3) have "s' = query_analysis_node self s" by (simp add: run_node_def)
  with assms(2) show ?thesis
    by (simp add: results_wellformed_def query_analysis_node_fields)
next
  case Tool_execution
  with assms(3) have "tool_execution_node self w s = Inr (w', s')" by (simp add: run_node_def)
  from tool_execution_node_wellformed [OF this assms(2)] show ?thesis .
next
  case Response_generation
  with assms(3) have r: "response_generation_node self w s = Inr (w', s')"
    by (simp add: run_node_def)
  from proposed_names_prefix [OF response_generation_node_messages [OF r]]
    response_generation_node_keeps [OF r] assms(2)
  show ?thesis by (auto simp: results_wellformed_def list_all_iff)
next
  case END
  with assms(1) show ?thesis by simp
qed

text \<open>
  Claim C8, as the code has it. On a turn, which the session driver starts with empty
  results, at every node a run enters and in the state it returns: no key of the results
  stands twice; every key is the name of a call the model proposed in the messages of the
  turn, a registered tool, selected or not, or a name outside the registry; and such a
  name, when the console prints its text \<open>Tool NAME not found\<close>, holds that text.
  Every call that completes sets the value under its name to its own outcome and leaves
  the other keys as they are, so after two calls of one name the results are what the
  second call alone would have left: the tool keeps its latest result only.
\<close>

theorem results_keys_invariant:
  "(\<forall>entry \<in> set (fst (ainvoke self w (initial_state user_query))).
      results_wellformed self (snd entry))
   \<and> (\<forall>w' sf. snd (ainvoke self w (initial_state user_query)) = Inr (w', sf)
        \<longrightarrow> results_wellformed self sf)
   \<and> (execute_tool_call self tc (w0, msgs, results) = Inr (w1, msgs1, results1)
        \<longrightarrow> results1 = dict_set (call_name tc) (call_outcome self w0 tc) results
            \<and> dict_get results1 (call_name tc) = Some (call_outcome self w0 tc)
            \<and> (\<forall>k. k \<noteq> call_name tc \<longrightarrow> dict_get results1 k = dict_get results k)
            \<and> (distinct (dict_keys results) \<longrightarrow> distinct (dict_keys results1)))
   \<and> (execute_tool_call self tc (w0, msgs, results) = Inr (w1, msgs1, results1)
        \<and> execute_tool_call self tc' (w1, msgs1, results1) = Inr (w2, msgs2, results2)
        \<and> call_name tc' = call_name tc
        \<longrightarrow> dict_get results2 (call_name tc) = Some (call_outcome self w1 tc')
            \<and> results2 = dict_set (call_name tc) (call_outcome self w1 tc') results
            \<and> length results2 = length results1)"
proof -
  have init: "results_wellformed self (initial_state user_query)"
    by (simp add: initial_state_def results_wellformed_def dict_keys_def)
  have inv: "(\<forall>entry \<in> set (fst (graph_run self START w (initial_state user_query))).
               results_wellformed self (snd entry))
             \<and> (\<forall>w' sf. snd (graph_run self START w (initial_state user_query)) = Inr (w', sf)
                  \<longrightarrow> results_wellformed self sf)"
  proof (rule graph_run_invariant [where I = "\<lambda>n s. results_wellformed self s"])
    show "results_wellformed self (initial_state user_query)" by (rule init)
  next
    fix n w s w' s'
    assume "n \<noteq> END" "results_wellformed self s" "run_node self n w s = Inr (w', s')"
    then show "results_wellformed self s'" by (rule results_wellformed_step)
  qed
  have 3: "results1 = dict_set (call_name tc) (call_outcome self w0 tc) results
            \<and> dict_get results1 (call_name tc) = Some (call_outcome self w0 tc)
            \<and> (\<forall>k. k \<noteq> call_name tc \<longrightarrow> dict_get results1 k = dict_get results k)
            \<and> (distinct (dict_keys results) \<longrightarrow> distinct (dict_keys results1))"
    if c: "execute_tool_call self tc (w0, msgs, results) = Inr (w1, msgs1, results1)"
  proof -
    from c have "results1 = dict_set (call_name tc) (call_outcome self w0 tc) results"
      by (rule execute_tool_call_returns)
    then show ?thesis
      by (simp add: dict_get_set_same dict_get_set_other dict_set_distinct)
  qed
  have 4: "dict_get results2 (call_name tc) = Some (call_outcome self w1 tc')
            \<and> results2 = dict_set (call_name tc) (call_outcome self w1 tc') results
            \<and> length results2 = length results1"
    if c: "execute_tool_call self tc (w0, msgs, results) = Inr (w1, msgs1, results1)"
      and c': "execute_tool_call self tc' (w1, msgs1, results1) = Inr (w2, msgs2, results2)"
      and same: "call_name tc' = call_name tc"
  proof -
    from c have r1: "results1 = dict_set (call_name tc) (call_outcome self w0 tc) results"
      by (rule execute_tool_call_returns)
    from c' have "results2 = dict_set (call_name tc') (call_outcome self w1 tc') results1"
      by (rule execute_tool_call_returns)
    with same
    have r2: "results2 = dict_set (call_name tc) (call_outcome self w1 tc') results1"
      by simp
    have len: "length (dict_set k v d) = length (dict_set k v' d)"
      for k :: string and v v' :: string and d
      by (induction d) auto
    from r1 r2 show ?thesis
      by (simp add: dict_set_overwrites dict_get_set_same len)
  qed
  from inv 3 4 show ?thesis unfolding ainvoke_def by blast
qed

theorem results_keys_invariant_witness:
  "snd tidy_run = Inr (2, tidy_final)
   \<and> tool_results tidy_final = [(''delete_branch'', ''ran delete_branch'')]
   \<and> proposed_names (messages tidy_final) = [''delete_branch'']
   \<and> results_wellformed scripted_agent tidy_final
   \<and> snd wandering_run = Inr (2, wandering_final)
   \<and> tool_results wandering_final
       = [(''ghost'', ''Tool ghost not found''),
          (''create_pull_request'', ''Error executing create_pull_request: connection reset''),
          (''list_branches'', ''ran list_branches'')]
   \<and> ''ghost'' \<notin> set (tool_registry wandering_agent)
   \<and> results_wellformed wandering_agent wandering_final
   \<and> execute_tool_call counting_agent (ToolCall ''list_branches'' [] ''call_1'') (0, [], [])
       = Inr (1, [ToolMessage ''run 0 of list_branches'' ''call_1''],
              [(''list_branches'', ''run 0 of list_branches'')])
   \<and> execute_tool_call counting_agent (ToolCall ''list_branches'' [] ''call_2'')
        (1, [ToolMessage ''run 0 of list_branches'' ''call_1''],
         [(''list_branches'', ''run 0 of list_branches'')])
       = Inr (2, [ToolMessage ''run 0 of list_branches'' ''call_1'',
                  ToolMessage ''run 1 of list_branches'' ''call_2''],
              [(''list_branches'', ''run 1 of list_branches'')])
   \<and> call_outcome counting_agent 1 (ToolCall ''list_branches'' [] ''call_2'')
       = ''run 1 of list_branches''
   \<and> dict_get [(''list_branches'', ''run 1 of list_branches'')] ''list_branches''
       = Some (call_outcome counting_agent 1 (ToolCall ''list_branches'' [] ''call_2''))"
proof -
  have f: "snd tidy_run = Inr (2, tidy_final)"
    by code_simp
  have r: "tool_results tidy_final = [(''delete_branch'', ''ran delete_branch'')]"
    by code_simp
  have p: "proposed_names (messages tidy_final) = [''delete_branch'']"
    by code_simp
  have c1: "execute_tool_call counting_agent (ToolCall ''list_branches'' [] ''call_1'') (0, [], [])
       = Inr (1, [ToolMessage ''run 0 of list_branches'' ''call_1''],
              [(''list_branches'', ''run 0 of list_branches'')])"
    by code_simp
  have c2: "execute_tool_call counting_agent (ToolCall ''list_branches'' [] ''call_2'')
        (1, [ToolMessage ''run 0 of list_branches'' ''call_1''],
         [(''list_branches'', ''run 0 of list_branches'')])
       = Inr (2, [ToolMessage ''run 0 of list_branches'' ''call_1'',
                  ToolMessage ''run 1 of list_branches'' ''call_2''],
              [(''list_branches'', ''run 1 of list_branches'')])"
    by code_simp
  have o: "call_outcome counting_agent 1 (ToolCall ''list_branches'' [] ''call_2'')
       = ''run 1 of list_branches''"
    by code_simp
  note t = results_keys_invariant [of scripted_agent 0 "''tidy up''", folded tidy_run_def]
  from t f have a: "results_wellformed scripted_agent tidy_final" by blast
  have wf: "snd wandering_run = Inr (2, wandering_final)"
    by code_simp
  have wr: "tool_results wandering_final
       = [(''ghost'', ''Tool ghost not found''),
          (''create_pull_request'', ''Error executing create_pull_request: connection reset''),
          (''list_branches'', ''ran list_branches'')]"
    by code_simp
  have wg: "''ghost'' \<notin> set (tool_registry wandering_agent)"
    by code_simp
  note v = results_keys_invariant [of wandering_agent 0 "''open a pull request for dev''",
      folded wandering_run_def]
  from v wf have wa: "results_wellformed wandering_agent wandering_final" by blast
  note u = results_keys_invariant [of counting_agent 0 "''tidy up''"
      "ToolCall ''list_branches'' [] ''call_1''" 0 "[]" "[]" 1
      "[ToolMessage ''run 0 of list_branches'' ''call_1'']"
      "[(''list_branches'', ''run 0 of list_branches'')]"
      "ToolCall ''list_branches'' [] ''call_2''" 2
      "[ToolMessage ''run 0 of list_branches'' ''call_1'',
        ToolMessage ''run 1 of list_branches'' ''call_2'']"
      "[(''list_branches'', ''run 1 of list_branches'')]"]
  from u c1 c2
  have g: "dict_get [(''list_branches'', ''run 1 of list_branches'')] ''list_branches''
       = Some (call_outcome counting_agent 1 (ToolCall ''list_branches'' [] ''call_2''))"
    by simp
  from f r p a wf wr wg wa c1 c2 o g show ?thesis by blast
qed

text \<open>
  The claim as stated fails when the model proposes a registered tool outside the
  shortlist: the pass looks the name up in the registry, not in \<open>selected_tools\<close>. In
  \<open>tidy_run\<close> the shortlist is \<open>create_branch\<close>, the model proposes \<open>delete_branch\<close>,
  the tool runs, and its name becomes a key of the results.
\<close>

theorem results_keys_counterexample:
  "snd tidy_run = Inr (2, tidy_final)
   \<and> selected_tools tidy_final = [''create_branch'']
   \<and> tool_results tidy_final = [(''delete_branch'', ''ran delete_branch'')]
   \<and> ''delete_branch'' \<in> set (tool_registry scripted_agent)
   \<and> ''delete_branch'' \<notin> set (selected_tools tidy_final)
   \<and> \<not> keys_selected_or_unknown scripted_agent tidy_final"
  by code_simp

section \<open>C9: what a pass appends to the messages\<close>

text \<open>
  Claim C9 asks that every proposed call, whatever its outcome, is answered in the
  messages. The code appends a \<open>ToolMessage\<close> on the path of success only. Here the
  model proposes three calls: an unknown name, a tool that raises and a tool that
  returns. All three outcomes reach the results; one message answers the three calls.
\<close>

theorem failed_calls_append_no_message:
  "(case tool_execution_node wandering_agent 0 pull_request_state of
      Inl err \<Rightarrow> False
    | Inr (w, state) \<Rightarrow>
        tool_results state
          = [(''ghost'', ''Tool ghost not found''),
             (''create_pull_request'', ''Error executing create_pull_request: connection reset''),
             (''list_branches'', ''ran list_branches'')]
        \<and> filter is_tool_message (messages state) = [ToolMessage ''ran list_branches'' ''call_3'']
        \<and> length (messages state) = 4)"
  by code_simp

section \<open>C10: tool execution runs before response generation\<close>

text \<open>
  Claim C10. The edge from query analysis to tool execution is unconditional, and
  \<open>should_continue\<close> is asked on the way out of tool execution only. So every run
  enters START, query analysis and tool execution in this order before any other node,
  and \<open>iteration_count\<close> is at least 1 whenever response generation is entered and in
  the state a run returns, whatever the query.
\<close>

theorem tool_execution_before_response:
  "next_node Query_analysis state' = Tool_execution
   \<and> (\<exists>rest. map fst (fst (ainvoke self w state))
                = START # Query_analysis # Tool_execution # rest)
   \<and> (\<forall>s. (Response_generation, s) \<in> set (fst (ainvoke self w state))
         \<longrightarrow> 1 \<le> iteration_count s)
   \<and> (\<forall>w' sf. snd (ainvoke self w state) = Inr (w', sf)
         \<longrightarrow> 1 \<le> iteration_count sf \<and> 1 \<le> passes (fst (ainvoke self w state)))"
proof -
  have 1: "next_node Query_analysis state' = Tool_execution"
    by (simp add: next_node_def)
  from graph_run_first [of Tool_execution self w "query_analysis_node self state"]
  obtain rest where "fst (graph_run self Tool_execution w (query_analysis_node self state))
                       = (Tool_execution, query_analysis_node self state) # rest"
    by blast
  then have "map fst (fst (ainvoke self w state))
               = START # Query_analysis # Tool_execution # map fst rest"
    by (simp add: ainvoke_def graph_run_START entered_def)
  then have 2: "\<exists>others. map fst (fst (ainvoke self w state))
                = START # Query_analysis # Tool_execution # others"
    by (rule exI)
  note inv = ainvoke_budget_invariant [of self w state]
  have 3: "1 \<le> iteration_count s"
    if "(Response_generation, s) \<in> set (fst (ainvoke self w state))" for s
  proof -
    from inv that have "budget_invariant (fst (Response_generation, s)) (snd (Response_generation, s))"
      by blast
    then show ?thesis by (simp add: budget_invariant_def)
  qed
  have 4: "1 \<le> iteration_count sf \<and> 1 \<le> passes (fst (ainvoke self w state))"
    if "snd (ainvoke self w state) = Inr (w', sf)" for w' sf
  proof -
    from inv that have "budget_invariant END sf" by blast
    then have "1 \<le> iteration_count sf" by (simp add: budget_invariant_def)
    with ainvoke_passes_counted [OF that] show ?thesis by simp
  qed
  from 1 2 3 4 show ?thesis by blast
qed

theorem tool_execution_before_response_witness:
  "(Response_generation, tidy_response_entry) \<in> set (fst tidy_run)
   \<and> snd tidy_run = Inr (2, tidy_final)
   \<and> map fst (fst tidy_run) = [START, Query_analysis, Tool_execution, Response_generation]
   \<and> 1 \<le> iteration_count tidy_response_entry
   \<and> 1 \<le> iteration_count tidy_final
   \<and> 1 \<le> passes (fst tidy_run)"
proof -
  have a: "map fst (fst tidy_run) = [START, Query_analysis, Tool_execution, Response_generation]"
    by code_simp
  then have ne: "fst tidy_run \<noteq> []" by auto
  from a have "last (map fst (fst tidy_run)) = Response_generation" by simp
  with ne have "fst (last (fst tidy_run)) = Response_generation" by (simp add: last_map)
  then have "last (fst tidy_run) = (Response_generation, tidy_response_entry)"
    by (simp add: tidy_response_entry_def prod_eq_iff)
  with ne have m: "(Response_generation, tidy_response_entry) \<in> set (fst tidy_run)"
    using last_in_set [of "fst tidy_run"] by simp
  have f: "snd tidy_run = Inr (2, tidy_final)"
    by code_simp
  note t = tool_execution_before_response [of _ scripted_agent 0 "initial_state ''tidy up''",
      folded tidy_run_def]
  from t m have b: "1 \<le> iteration_count tidy_response_entry" by blast
  from t f have c: "1 \<le> iteration_count tidy_final \<and> 1 \<le> passes (fst tidy_run)" by blast
  from a m f b c show ?thesis by blast
qed

end
